theory Spec2Isabelle
  imports Complex_Main "HOL-Library.Monad_Syntax"
begin

section \<open>Data model (subdue.h)\<close>

text \<open>
  Conventions of the embedding.
  \<^item> \<open>ULONG\<close> (\<open>unsigned long\<close>, 64 bits) is \<open>nat\<close>. Counts and indices stay far below
    \<open>2 ^ 64\<close> (they are bounded by allocated memory), so additions are plain; every
    subtraction of the source is written \<open>usub\<close>, which wraps as the machine does.
  \<^item> \<open>double\<close> is \<open>real\<close>: the arithmetic is the exact one, without rounding, and
    \<open>LOG_2\<close> is \<open>ln 2\<close>.
  \<^item> A C array with its element count is a list. A vertex keeps \<open>numEdges\<close> as the
    length of its \<open>edges\<close> list (the source reallocates that array by one element per
    edge); a graph keeps the two counters of the struct next to its arrays.
  \<^item> A read outside an allocated array is undefined in C; in the model it is \<open>xs ! i\<close>
    out of range, and theorems state the well-formedness that excludes it.
  \<^item> A function that dereferences a pointer returns an \<open>option\<close>: \<open>None\<close> when the
    pointer is \<open>NULL\<close> or dangling. A division of doubles by zero gives an infinity or
    NaN, which is no real number: it is \<open>None\<close> as well (\<open>fdiv\<close>).
  \<^item> The run is the non-incremental one (\<open>parameters->incremental = FALSE\<close>, the
    default of \<open>GetParameters\<close>): the branches guarded by that flag are not embedded.
\<close>

definition MAX_UNSIGNED_LONG :: nat where
  "MAX_UNSIGNED_LONG = 2 ^ 64 - 1"

definition VERTEX_UNMAPPED :: nat where
  "VERTEX_UNMAPPED = MAX_UNSIGNED_LONG"

definition VERTEX_DELETED :: nat where
  "VERTEX_DELETED = MAX_UNSIGNED_LONG - 1"

definition LIST_SIZE_INC :: nat where
  "LIST_SIZE_INC = 100"

definition EVAL_MDL :: nat where "EVAL_MDL = 1"
definition EVAL_SIZE :: nat where "EVAL_SIZE = 2"
definition EVAL_SETCOVER :: nat where "EVAL_SETCOVER = 3"

definition usub :: "nat \<Rightarrow> nat \<Rightarrow> nat" where
  "usub a b = (if b \<le> a then a - b else 2 ^ 64 - (b - a))"

record Edge =
  vertex1 :: nat
  vertex2 :: nat
  elabel :: nat
  directed :: bool
  eused :: bool
  spansIncrement :: bool

record Vertex =
  vlabel :: nat
  vedges :: "nat list"
  vmap :: nat
  vused :: bool

record Graph =
  numVertices :: nat
  numEdges :: nat
  vertices :: "Vertex list"
  edges :: "Edge list"

datatype LabelValue = StringLabel string | NumericLabel real

record Label =
  labelValue :: LabelValue
  lused :: bool

record Instance =
  inumVertices :: nat
  inumEdges :: nat
  ivertices :: "nat list"
  iedges :: "nat list"
  minMatchCost :: real
  newVertex :: nat
  newEdge :: nat
  refCount :: nat
  mapping :: "(nat \<times> nat) list"
  mappingIndex1 :: nat
  mappingIndex2 :: nat
  iused :: bool

text \<open>
  A \<open>Graph *\<close> is an address into a store of graphs, and a nullable one is an
  \<open>option\<close>. The store gives the graph at each live address; \<open>malloc\<close> hands out the
  addresses in increasing order (\<open>next_ref\<close> is the next one). An \<open>InstanceList *\<close> is
  \<open>None\<close> for \<open>NULL\<close> and otherwise the list of its nodes, head first. Dereferencing
  \<open>NULL\<close> or a dead address ends the run: the functions that can do so return \<open>None\<close>.
\<close>

type_synonym gref = nat

record Store =
  objs :: "gref \<rightharpoonup> Graph"
  next_ref :: gref

record Substructure =
  definition_ref :: gref
  numInstances :: nat
  numExamples :: nat
  instances :: "Instance list option"
  numNegInstances :: nat
  numNegExamples :: nat
  negInstances :: "Instance list option"
  svalue :: real
  recursive :: bool
  recursiveEdgeLabel :: nat
  posIncrementValue :: real
  negIncrementValue :: real

record Parameters =
  posGraph :: gref
  negGraph :: "gref option"
  posGraphDL :: real
  negGraphDL :: real
  numPosEgs :: nat
  numNegEgs :: nat
  posEgsVertexIndices :: "nat list"
  negEgsVertexIndices :: "nat list"
  labelList :: "Label list"
  allowInstanceOverlap :: bool
  evalMethod :: nat
  log2Factorial :: "real list"

section \<open>Description length (evaluate.c)\<close>

definition GraphSize :: "Graph \<Rightarrow> nat" where
  "GraphSize graph = numVertices graph + numEdges graph"

definition Log2 :: "nat \<Rightarrow> real" where
  "Log2 number = (if number \<le> 0 then 0 else ln (real number) / ln 2)"

text \<open>
  \<open>Log2Factorial\<close> grows the cache \<open>parameters->log2Factorial\<close> (whose size field is the
  length of the list) and reads it. The new cells of the reallocated array are written
  in increasing order by the loop \<open>Log2Factorial_fill\<close>.
\<close>

fun Log2Factorial_fill :: "nat list \<Rightarrow> real list \<Rightarrow> real list" where
  "Log2Factorial_fill [] c = c"
| "Log2Factorial_fill (i # rest) c =
     Log2Factorial_fill rest (c[i := Log2 i + c ! (usub i 1)])"

definition Log2Factorial :: "nat \<Rightarrow> Parameters \<Rightarrow> real \<times> Parameters" where
  "Log2Factorial number parameters =
     (let cache = log2Factorial parameters in
      if number \<ge> length cache then
        (let newSize = number + LIST_SIZE_INC;
             cache1 = cache @ replicate (newSize - length cache) 0;
             cache2 = Log2Factorial_fill [length cache..<newSize] cache1
         in (cache2 ! number, parameters\<lparr>log2Factorial := cache2\<rparr>))
      else (cache ! number, parameters))"

definition set_vused :: "Graph \<Rightarrow> nat \<Rightarrow> bool \<Rightarrow> Graph" where
  "set_vused g v b = g\<lparr>vertices := (vertices g)[v := (vertices g ! v)\<lparr>vused := b\<rparr>]\<rparr>"

definition set_eused :: "Graph \<Rightarrow> nat \<Rightarrow> bool \<Rightarrow> Graph" where
  "set_eused g e b = g\<lparr>edges := (edges g)[e := (edges g ! e)\<lparr>eused := b\<rparr>]\<rparr>"

definition otherVertex :: "Edge \<Rightarrow> nat \<Rightarrow> nat" where
  "otherVertex edge v1 = (if vertex1 edge = v1 then vertex2 edge else vertex1 edge)"

definition countsFrom :: "Edge \<Rightarrow> nat \<Rightarrow> bool" where
  "countsFrom edge v1 =
     ((directed edge \<and> vertex1 edge = v1) \<or>
      (\<not> directed edge \<and> otherVertex edge v1 \<ge> v1))"

fun NumUniqueEdges_count :: "nat \<Rightarrow> nat list \<Rightarrow> Graph \<Rightarrow> nat \<Rightarrow> nat \<times> Graph" where
  "NumUniqueEdges_count v1 [] g n = (n, g)"
| "NumUniqueEdges_count v1 (e # rest) g n =
     (let edge = edges g ! e; v2 = otherVertex edge v1 in
      if countsFrom edge v1 \<and> \<not> vused (vertices g ! v2)
      then NumUniqueEdges_count v1 rest (set_vused g v2 True) (n + 1)
      else NumUniqueEdges_count v1 rest g n)"

fun NumUniqueEdges_reset :: "nat list \<Rightarrow> Graph \<Rightarrow> Graph" where
  "NumUniqueEdges_reset [] g = g"
| "NumUniqueEdges_reset (e # rest) g =
     (let edge = edges g ! e in
      NumUniqueEdges_reset rest
        (set_vused (set_vused g (vertex1 edge) False) (vertex2 edge) False))"

definition NumUniqueEdges :: "Graph \<Rightarrow> nat \<Rightarrow> nat \<times> Graph" where
  "NumUniqueEdges graph v1 =
     (let es = vedges (vertices graph ! v1);
          (numUniqueEdges, g1) = NumUniqueEdges_count v1 es graph 0
      in (numUniqueEdges, NumUniqueEdges_reset es g1))"

text \<open>
  \<open>MaxEdgesToSingleVertex\<close>: the outer loop walks the adjacency array of \<open>v1\<close>, the inner
  loop the entries after position \<open>i\<close>. The inner test reads \<open>edge1->directed\<close> in its
  second disjunct, as the source does.
\<close>

fun MaxEdges_inner :: "Graph \<Rightarrow> nat \<Rightarrow> Edge \<Rightarrow> nat \<Rightarrow> nat list \<Rightarrow> nat \<Rightarrow> nat" where
  "MaxEdges_inner g v1 edge1 v2 [] n = n"
| "MaxEdges_inner g v1 edge1 v2 (e # rest) n =
     (let edge2 = edges g ! e; v2j = otherVertex edge2 v1 in
      if v2j = v2 \<and>
         ((directed edge2 \<and> vertex1 edge2 = v1) \<or> (\<not> directed edge1 \<and> v2j \<ge> v1))
      then MaxEdges_inner g v1 edge1 v2 rest (n + 1)
      else MaxEdges_inner g v1 edge1 v2 rest n)"

fun MaxEdges_outer :: "Graph \<Rightarrow> nat \<Rightarrow> nat list \<Rightarrow> nat \<Rightarrow> nat" where
  "MaxEdges_outer g v1 [] maxEdges = maxEdges"
| "MaxEdges_outer g v1 (e # rest) maxEdges =
     (let edge1 = edges g ! e; v2 = otherVertex edge1 v1 in
      if countsFrom edge1 v1 then
        (let numEdgesToVertex2 = MaxEdges_inner g v1 edge1 v2 rest 1 in
         MaxEdges_outer g v1 rest
           (if numEdgesToVertex2 > maxEdges then numEdgesToVertex2 else maxEdges))
      else MaxEdges_outer g v1 rest maxEdges)"

definition MaxEdgesToSingleVertex :: "Graph \<Rightarrow> nat \<Rightarrow> nat" where
  "MaxEdgesToSingleVertex graph v1 =
     MaxEdges_outer graph v1 (vedges (vertices graph ! v1)) 0"

record MDL_state =
  rowBits :: real
  B_max :: nat
  K_sum :: nat
  M_max :: nat
  mgraph :: Graph
  mparams :: Parameters

fun MDL_loop :: "nat \<Rightarrow> nat list \<Rightarrow> MDL_state \<Rightarrow> MDL_state" where
  "MDL_loop V [] s = s"
| "MDL_loop V (v1 # rest) s =
     (let (ki, g1) = NumUniqueEdges (mgraph s) v1;
          (f1, p1) = Log2Factorial ki (mparams s);
          (f2, p2) = Log2Factorial (usub V ki) p1;
          tmpM = MaxEdgesToSingleVertex g1 v1
      in MDL_loop V rest
           \<lparr>rowBits = rowBits s - (f1 + f2),
            B_max = (if ki > B_max s then ki else B_max s),
            K_sum = K_sum s + ki,
            M_max = (if tmpM > M_max s then tmpM else M_max s),
            mgraph = g1,
            mparams = p2\<rparr>)"

definition MDL :: "Graph \<Rightarrow> nat \<Rightarrow> Parameters \<Rightarrow> real \<times> Graph \<times> Parameters" where
  "MDL graph numLabels parameters =
     (let V = numVertices graph;
          E = numEdges graph;
          L = numLabels;
          vertexBits = Log2 V + real V * Log2 L;
          (f, p0) = Log2Factorial V parameters;
          edgeBits = real E * (1 + Log2 L);
          s = MDL_loop V [0..<V]
                \<lparr>rowBits = real V * f, B_max = 0, K_sum = 0, M_max = 0,
                 mgraph = graph, mparams = p0\<rparr>;
          rowBits1 = rowBits s + real (V + 1) * Log2 (B_max s + 1);
          edgeBits1 = edgeBits + real (K_sum s + 1) * Log2 (M_max s);
          totalBits = vertexBits + rowBits1 + edgeBits1
      in (totalBits, mgraph s, mparams s))"


text \<open>
  \<open>ExternalEdgeBits\<close>: one \<open>lg |V(S)|\<close> for every adjacency entry of the first
  \<open>numInstances\<close> vertices of the compressed graph, and one more for a self-edge.
\<close>

fun ExternalEdgeBits_edges :: "Graph \<Rightarrow> real \<Rightarrow> nat list \<Rightarrow> real \<Rightarrow> real" where
  "ExternalEdgeBits_edges cg lg [] edgeBits = edgeBits"
| "ExternalEdgeBits_edges cg lg (e # rest) edgeBits =
     (let edge = edges cg ! e;
          edgeBits1 = edgeBits + lg;
          edgeBits2 = (if vertex1 edge = vertex2 edge then edgeBits1 + lg else edgeBits1)
      in ExternalEdgeBits_edges cg lg rest edgeBits2)"

fun ExternalEdgeBits_loop :: "Graph \<Rightarrow> real \<Rightarrow> nat list \<Rightarrow> real \<Rightarrow> real" where
  "ExternalEdgeBits_loop cg lg [] edgeBits = edgeBits"
| "ExternalEdgeBits_loop cg lg (v # rest) edgeBits =
     ExternalEdgeBits_loop cg lg rest
       (ExternalEdgeBits_edges cg lg (vedges (vertices cg ! v)) edgeBits)"

definition ExternalEdgeBits :: "Graph \<Rightarrow> Graph \<Rightarrow> nat \<Rightarrow> real" where
  "ExternalEdgeBits compressedGraph subGraph nInstances =
     ExternalEdgeBits_loop compressedGraph (Log2 (numVertices subGraph))
       [0..<nInstances] 0"

text \<open>
  \<open>ExamplesCovered\<close>: the inner \<open>while\<close> stops at the first instance whose first vertex
  lies in the example's range (\<open>ExamplesCovered_found\<close> is its \<open>found\<close> flag).
\<close>

fun ExamplesCovered_found :: "Instance list \<Rightarrow> nat \<Rightarrow> nat \<Rightarrow> bool" where
  "ExamplesCovered_found [] egStart egEnd = False"
| "ExamplesCovered_found (inst # rest) egStart egEnd =
     (let instanceVertexIndex = ivertices inst ! 0 in
      if instanceVertexIndex \<ge> egStart \<and> instanceVertexIndex \<le> egEnd then True
      else ExamplesCovered_found rest egStart egEnd)"

fun ExamplesCovered_loop ::
  "nat list \<Rightarrow> Instance list \<Rightarrow> Graph \<Rightarrow> nat \<Rightarrow> nat list \<Rightarrow> nat \<Rightarrow> nat \<Rightarrow> nat" where
  "ExamplesCovered_loop [] il graph numEgs egs start n = n"
| "ExamplesCovered_loop (i # rest) il graph numEgs egs start n =
     (let egStartVertexIndex = egs ! i in
      if egStartVertexIndex \<ge> start then
        (let egEndVertexIndex =
               (if i < usub numEgs 1 then usub (egs ! (i + 1)) 1
                else usub (numVertices graph) 1)
         in if ExamplesCovered_found il egStartVertexIndex egEndVertexIndex
            then ExamplesCovered_loop rest il graph numEgs egs start (n + 1)
            else ExamplesCovered_loop rest il graph numEgs egs start n)
      else ExamplesCovered_loop rest il graph numEgs egs start n)"

definition ExamplesCovered ::
  "Instance list option \<Rightarrow> Graph \<Rightarrow> nat \<Rightarrow> nat list \<Rightarrow> nat \<Rightarrow> nat" where
  "ExamplesCovered instanceList graph numEgs egsVertexIndices start =
     (case instanceList of
        None \<Rightarrow> 0
      | Some il \<Rightarrow> ExamplesCovered_loop [0..<numEgs] il graph numEgs egsVertexIndices start 0)"

definition PosExamplesCovered :: "Graph \<Rightarrow> Substructure \<Rightarrow> Parameters \<Rightarrow> nat" where
  "PosExamplesCovered posG sub parameters =
     ExamplesCovered (instances sub) posG (numPosEgs parameters)
       (posEgsVertexIndices parameters) 0"

definition NegExamplesCovered :: "Graph \<Rightarrow> Substructure \<Rightarrow> Parameters \<Rightarrow> nat" where
  "NegExamplesCovered negG sub parameters =
     ExamplesCovered (negInstances sub) negG (numNegEgs parameters)
       (negEgsVertexIndices parameters) 0"

section \<open>Graph construction (graphops.c)\<close>

text \<open>
  \<open>AllocateGraph\<close> returns arrays of uninitialised cells; their content is the
  unspecified value \<open>undefined\<close> until the caller writes them. \<open>realloc\<close> keeps the
  old cells and adds uninitialised ones.
\<close>

definition AllocateGraph :: "nat \<Rightarrow> nat \<Rightarrow> Graph" where
  "AllocateGraph v e =
     \<lparr>numVertices = v, numEdges = e,
      vertices = replicate v undefined, edges = replicate e undefined\<rparr>"

definition realloc :: "'a list \<Rightarrow> nat \<Rightarrow> 'a list" where
  "realloc xs n = take n xs @ replicate (n - length xs) undefined"

definition StoreEdge ::
  "Edge list \<Rightarrow> nat \<Rightarrow> nat \<Rightarrow> nat \<Rightarrow> nat \<Rightarrow> bool \<Rightarrow> bool \<Rightarrow> Edge list" where
  "StoreEdge overlapEdges edgeIndex v1 v2 label dir spans =
     overlapEdges[edgeIndex :=
       \<lparr>vertex1 = v1, vertex2 = v2, elabel = label, directed = dir,
        eused = False, spansIncrement = spans\<rparr>]"

definition add_vedge :: "Graph \<Rightarrow> nat \<Rightarrow> nat \<Rightarrow> Graph" where
  "add_vedge g v edgeIndex =
     g\<lparr>vertices := (vertices g)[v := (vertices g ! v)\<lparr>vedges := vedges (vertices g ! v) @ [edgeIndex]\<rparr>]\<rparr>"

definition AddEdgeToVertices :: "Graph \<Rightarrow> nat \<Rightarrow> Graph" where
  "AddEdgeToVertices graph edgeIndex =
     (let v1 = vertex1 (edges graph ! edgeIndex);
          v2 = vertex2 (edges graph ! edgeIndex);
          g1 = add_vedge graph v1 edgeIndex
      in if v1 \<noteq> v2 then add_vedge g1 v2 edgeIndex else g1)"

definition AddVertex :: "Graph \<Rightarrow> nat \<Rightarrow> Graph" where
  "AddVertex graph labelIndex =
     graph\<lparr>vertices := take (numVertices graph) (vertices graph) @
                 [\<lparr>vlabel = labelIndex, vedges = [], vmap = VERTEX_UNMAPPED,
                   vused = False\<rparr>],
           numVertices := numVertices graph + 1\<rparr>"

text \<open>
  \<open>AddVertex\<close> and \<open>AddEdge\<close> append to the vertex and edge arrays, which they grow
  by \<open>LIST_SIZE_INC\<close> cells when full; the lists hold the cells in use.
\<close>

definition AddEdge :: "Graph \<Rightarrow> nat \<Rightarrow> nat \<Rightarrow> bool \<Rightarrow> nat \<Rightarrow> bool \<Rightarrow> Graph" where
  "AddEdge graph sourceVertexIndex targetVertexIndex dir labelIndex spans =
     (let g1 = graph\<lparr>edges := take (numEdges graph) (edges graph) @
                 [\<lparr>vertex1 = sourceVertexIndex, vertex2 = targetVertexIndex,
                   elabel = labelIndex, directed = dir, eused = False,
                   spansIncrement = spans\<rparr>]\<rparr>;
          g2 = AddEdgeToVertices g1 (numEdges graph)
      in g2\<lparr>numEdges := numEdges graph + 1\<rparr>)"

text \<open>
  \<open>CopyGraph\<close> copies label, map, used and the adjacency array of every vertex, and
  the end points, label, directedness and used flag of every edge; it leaves
  \<open>spansIncrement\<close> of the new edges unwritten.
\<close>

definition CopyGraph :: "Graph \<Rightarrow> Graph" where
  "CopyGraph g =
     \<lparr>numVertices = numVertices g, numEdges = numEdges g,
      vertices = map (\<lambda>v. \<lparr>vlabel = vlabel (vertices g ! v),
                            vedges = vedges (vertices g ! v),
                            vmap = vmap (vertices g ! v),
                            vused = vused (vertices g ! v)\<rparr>) [0..<numVertices g],
      edges = map (\<lambda>e. \<lparr>vertex1 = vertex1 (edges g ! e), vertex2 = vertex2 (edges g ! e),
                         elabel = elabel (edges g ! e), directed = directed (edges g ! e),
                         eused = eused (edges g ! e),
                         spansIncrement = spansIncrement (undefined :: Edge)\<rparr>)
                [0..<numEdges g]\<rparr>"

section \<open>Instances (subops.c)\<close>

definition inst_vertices :: "Instance \<Rightarrow> nat list" where
  "inst_vertices inst = map (\<lambda>v. ivertices inst ! v) [0..<inumVertices inst]"

definition inst_edges :: "Instance \<Rightarrow> nat list" where
  "inst_edges inst = map (\<lambda>e. iedges inst ! e) [0..<inumEdges inst]"

definition MarkInstanceVertices :: "Instance \<Rightarrow> Graph \<Rightarrow> bool \<Rightarrow> Graph" where
  "MarkInstanceVertices inst graph b =
     fold (\<lambda>v g. set_vused g v b) (inst_vertices inst) graph"

definition MarkInstanceEdges :: "Instance \<Rightarrow> Graph \<Rightarrow> bool \<Rightarrow> Graph" where
  "MarkInstanceEdges inst graph b =
     fold (\<lambda>e g. set_eused g e b) (inst_edges inst) graph"

function InstanceOverlap_skip :: "Instance \<Rightarrow> nat \<Rightarrow> nat \<Rightarrow> nat" where
  "InstanceOverlap_skip inst2 v1 j =
     (if j < inumVertices inst2 \<and> ivertices inst2 ! j < v1
      then InstanceOverlap_skip inst2 v1 (j + 1) else j)"
  by pat_completeness auto
termination
  by (relation "measure (\<lambda>(inst2, v1, j). inumVertices inst2 - j)") auto

function InstanceOverlap_loop :: "Instance \<Rightarrow> Instance \<Rightarrow> nat \<Rightarrow> nat \<Rightarrow> bool" where
  "InstanceOverlap_loop inst1 inst2 i j =
     (if i < inumVertices inst1 \<and> j < inumVertices inst2 then
        (let v1 = ivertices inst1 ! i;
             j1 = InstanceOverlap_skip inst2 v1 j
         in if j1 < inumVertices inst2 \<and> v1 = ivertices inst2 ! j1 then True
            else InstanceOverlap_loop inst1 inst2 (i + 1) j1)
      else False)"
  by pat_completeness auto
termination
  by (relation "measure (\<lambda>(inst1, inst2, i, j). inumVertices inst1 - i)") auto

definition InstanceOverlap :: "Instance \<Rightarrow> Instance \<Rightarrow> bool" where
  "InstanceOverlap inst1 inst2 = InstanceOverlap_loop inst1 inst2 0 0"

fun InstancesOverlap_inner :: "Instance \<Rightarrow> Instance list \<Rightarrow> bool" where
  "InstancesOverlap_inner inst1 [] = False"
| "InstancesOverlap_inner inst1 (inst2 # rest) =
     (if InstanceOverlap inst1 inst2 then True
      else InstancesOverlap_inner inst1 rest)"

fun InstancesOverlap_outer :: "Instance list \<Rightarrow> bool" where
  "InstancesOverlap_outer [] = False"
| "InstancesOverlap_outer (inst1 # rest) =
     (if InstancesOverlap_inner inst1 rest then True else InstancesOverlap_outer rest)"

definition InstancesOverlap :: "Instance list option \<Rightarrow> bool" where
  "InstancesOverlap instanceList =
     (case instanceList of None \<Rightarrow> False | Some il \<Rightarrow> InstancesOverlap_outer il)"

section \<open>Compression (compress.c)\<close>

text \<open>
  Growing \<open>overlapEdges\<close> by one cell with \<open>realloc\<close> and storing into the new last
  cell is appending to the list; \<open>numOverlapEdges\<close> is its length.
\<close>

definition new_edge :: "nat \<Rightarrow> nat \<Rightarrow> nat \<Rightarrow> bool \<Rightarrow> bool \<Rightarrow> Edge" where
  "new_edge v1 v2 lbl dir spans =
     \<lparr>vertex1 = v1, vertex2 = v2, elabel = lbl, directed = dir, eused = False,
      spansIncrement = spans\<rparr>"

definition AddOverlapEdge :: "Edge list \<Rightarrow> nat \<Rightarrow> nat \<Rightarrow> nat \<Rightarrow> Edge list" where
  "AddOverlapEdge overlapEdges sub1VertexIndex sub2VertexIndex overlapLabelIndex =
     (if list_ex (\<lambda>e. vertex1 e = sub1VertexIndex \<and> vertex2 e = sub2VertexIndex) overlapEdges
      then overlapEdges
      else overlapEdges @
             [new_edge sub1VertexIndex sub2VertexIndex overlapLabelIndex False False])"

definition AddDuplicateEdges ::
  "Edge list \<Rightarrow> Edge \<Rightarrow> Graph \<Rightarrow> nat \<Rightarrow> nat \<Rightarrow> Edge list" where
  "AddDuplicateEdges overlapEdges edge graph sub1VertexIndex sub2VertexIndex =
     (if vmap (vertices graph ! vertex1 edge) \<noteq> sub1VertexIndex then
        overlapEdges @
          [new_edge (vmap (vertices graph ! vertex1 edge)) sub2VertexIndex
             (elabel edge) (directed edge) (spansIncrement edge)]
      else if vmap (vertices graph ! vertex2 edge) \<noteq> sub1VertexIndex then
        overlapEdges @
          [new_edge sub2VertexIndex (vmap (vertices graph ! vertex2 edge))
             (elabel edge) (directed edge) (spansIncrement edge)]
      else
        (let v1 = sub1VertexIndex;
             v2 = sub2VertexIndex;
             dup = (\<lambda>a b. new_edge a b (elabel edge) (directed edge) (spansIncrement edge));
             oe1 = overlapEdges @ [dup v1 v2];
             oe2 = (if \<not> vused (vertices graph ! vertex1 edge) \<or>
                       \<not> vused (vertices graph ! vertex2 edge)
                    then oe1 @ [dup v2 v2] else oe1);
             oe3 = (if vertex1 edge = vertex2 edge then
                      (let oe2a = oe2 @ [dup v2 v2] in
                       if directed edge then oe2a @ [dup v2 v1] else oe2a)
                    else oe2)
         in oe3))"

text \<open>
  The five nested loops of \<open>AddOverlapEdges\<close>, innermost first. \<open>NumOverlapEdges\<close> runs
  the same loops without the two \<open>start\<close> tests; it is the instance of these loops
  with both starts 0, where the tests are true of every \<open>ULONG\<close>.
\<close>

fun OverlapEdges_edges ::
  "nat list \<Rightarrow> Graph \<Rightarrow> nat \<Rightarrow> nat \<Rightarrow> nat \<Rightarrow> Edge list \<Rightarrow> Edge list" where
  "OverlapEdges_edges [] graph startEdge s1 s2 oe = oe"
| "OverlapEdges_edges (ei # rest) graph startEdge s1 s2 oe =
     (let edge1 = edges graph ! ei in
      if \<not> eused edge1 \<and> ei \<ge> startEdge
      then OverlapEdges_edges rest graph startEdge s1 s2
             (AddDuplicateEdges oe edge1 graph s1 s2)
      else OverlapEdges_edges rest graph startEdge s1 s2 oe)"

fun OverlapEdges_v2 ::
  "nat list \<Rightarrow> nat \<Rightarrow> Graph \<Rightarrow> nat \<Rightarrow> nat \<Rightarrow> nat \<Rightarrow> nat \<Rightarrow> nat \<Rightarrow> Edge list \<Rightarrow> Edge list"
  where
  "OverlapEdges_v2 [] vi1 graph lbl startVertex startEdge no1 no2 oe = oe"
| "OverlapEdges_v2 (vi2 # rest) vi1 graph lbl startVertex startEdge no1 no2 oe =
     (if vi1 = vi2 \<and> vi1 \<ge> startVertex then
        (let oe1 = AddOverlapEdge oe (no1 - 1) (no2 - 1) lbl;
             oe2 = OverlapEdges_edges (vedges (vertices graph ! vi1)) graph startEdge
                     (no1 - 1) (no2 - 1) oe1
         in OverlapEdges_v2 rest vi1 graph lbl startVertex startEdge no1 no2 oe2)
      else OverlapEdges_v2 rest vi1 graph lbl startVertex startEdge no1 no2 oe)"

fun OverlapEdges_inst2 ::
  "Instance list \<Rightarrow> nat \<Rightarrow> Graph \<Rightarrow> nat \<Rightarrow> nat \<Rightarrow> nat \<Rightarrow> nat \<Rightarrow> nat \<Rightarrow> Edge list \<Rightarrow> Edge list"
  where
  "OverlapEdges_inst2 [] vi1 graph lbl startVertex startEdge no1 no2 oe = oe"
| "OverlapEdges_inst2 (inst2 # rest) vi1 graph lbl startVertex startEdge no1 no2 oe =
     OverlapEdges_inst2 rest vi1 graph lbl startVertex startEdge no1 (no2 + 1)
       (OverlapEdges_v2 (inst_vertices inst2) vi1 graph lbl startVertex startEdge no1 no2 oe)"

fun OverlapEdges_v1 ::
  "nat list \<Rightarrow> Instance list \<Rightarrow> Graph \<Rightarrow> nat \<Rightarrow> nat \<Rightarrow> nat \<Rightarrow> nat \<Rightarrow> Edge list
     \<Rightarrow> Graph \<times> Edge list" where
  "OverlapEdges_v1 [] after graph lbl startVertex startEdge no1 oe = (graph, oe)"
| "OverlapEdges_v1 (vi1 # rest) after graph lbl startVertex startEdge no1 oe =
     (if vused (vertices graph ! vi1) then
        (let oe1 = OverlapEdges_inst2 after vi1 graph lbl startVertex startEdge no1 (no1 + 1) oe
         in OverlapEdges_v1 rest after (set_vused graph vi1 False) lbl startVertex startEdge
              no1 oe1)
      else OverlapEdges_v1 rest after graph lbl startVertex startEdge no1 oe)"

fun OverlapEdges_inst1 ::
  "Instance list \<Rightarrow> Graph \<Rightarrow> nat \<Rightarrow> nat \<Rightarrow> nat \<Rightarrow> nat \<Rightarrow> Edge list \<Rightarrow> Graph \<times> Edge list"
  where
  "OverlapEdges_inst1 [] graph lbl startVertex startEdge no1 oe = (graph, oe)"
| "OverlapEdges_inst1 (inst1 # rest) graph lbl startVertex startEdge no1 oe =
     (let (g1, oe1) = OverlapEdges_v1 (inst_vertices inst1) rest graph lbl startVertex
                        startEdge no1 oe
      in OverlapEdges_inst1 rest g1 lbl startVertex startEdge (no1 + 1) oe1)"

fun AddOverlapEdges_store :: "Edge list \<Rightarrow> Graph \<Rightarrow> nat \<Rightarrow> Graph" where
  "AddOverlapEdges_store [] cg edgeIndex = cg"
| "AddOverlapEdges_store (oe # rest) cg edgeIndex =
     (let cg1 = cg\<lparr>edges := StoreEdge (edges cg) edgeIndex (vertex1 oe) (vertex2 oe)
                               (elabel oe) (directed oe) (spansIncrement oe)\<rparr>;
          cg2 = AddEdgeToVertices cg1 edgeIndex
      in AddOverlapEdges_store rest cg2 (edgeIndex + 1))"

definition AddOverlapEdges ::
  "Graph \<Rightarrow> Graph \<Rightarrow> Instance list \<Rightarrow> nat \<Rightarrow> nat \<Rightarrow> nat \<Rightarrow> Graph \<times> Graph" where
  "AddOverlapEdges compressedGraph graph instanceList overlapLabelIndex startVertex startEdge =
     (let (g1, overlapEdges) =
            OverlapEdges_inst1 instanceList graph overlapLabelIndex startVertex startEdge 1 [];
          numOverlapEdges = length overlapEdges
      in if numOverlapEdges > 0 then
           (let totalEdges = numEdges compressedGraph + numOverlapEdges;
                cg1 = compressedGraph\<lparr>edges := realloc (edges compressedGraph) totalEdges\<rparr>;
                cg2 = AddOverlapEdges_store overlapEdges cg1 (numEdges compressedGraph)
            in (cg2\<lparr>numEdges := numEdges compressedGraph + numOverlapEdges\<rparr>, g1))
         else (compressedGraph, g1))"

definition NumOverlapEdges :: "Graph \<Rightarrow> Instance list \<Rightarrow> nat \<times> Graph" where
  "NumOverlapEdges graph instanceList =
     (let (g1, overlapEdges) = OverlapEdges_inst1 instanceList graph 0 0 0 1 []
      in (length overlapEdges, g1))"

fun CopyUnmarkedGraph_vertices ::
  "nat list \<Rightarrow> Graph \<Rightarrow> Graph \<Rightarrow> nat \<Rightarrow> Graph \<times> Graph \<times> nat" where
  "CopyUnmarkedGraph_vertices [] g1 g2 vertexIndex = (g1, g2, vertexIndex)"
| "CopyUnmarkedGraph_vertices (v # rest) g1 g2 vertexIndex =
     (if \<not> vused (vertices g1 ! v) then
        CopyUnmarkedGraph_vertices rest
          (g1\<lparr>vertices := (vertices g1)[v := (vertices g1 ! v)\<lparr>vmap := vertexIndex\<rparr>]\<rparr>)
          (g2\<lparr>vertices := (vertices g2)[vertexIndex :=
                 \<lparr>vlabel = vlabel (vertices g1 ! v), vedges = [],
                  vmap = VERTEX_UNMAPPED, vused = False\<rparr>]\<rparr>)
          (vertexIndex + 1)
      else CopyUnmarkedGraph_vertices rest g1 g2 vertexIndex)"

fun CopyUnmarkedGraph_edges :: "nat list \<Rightarrow> Graph \<Rightarrow> Graph \<Rightarrow> nat \<Rightarrow> Graph" where
  "CopyUnmarkedGraph_edges [] g1 g2 edgeIndex = g2"
| "CopyUnmarkedGraph_edges (e # rest) g1 g2 edgeIndex =
     (if \<not> eused (edges g1 ! e) then
        (let v1 = vmap (vertices g1 ! vertex1 (edges g1 ! e));
             v2 = vmap (vertices g1 ! vertex2 (edges g1 ! e));
             g2a = g2\<lparr>edges := StoreEdge (edges g2) edgeIndex v1 v2 (elabel (edges g1 ! e))
                                 (directed (edges g1 ! e)) (spansIncrement (edges g1 ! e))\<rparr>;
             g2b = AddEdgeToVertices g2a edgeIndex
         in CopyUnmarkedGraph_edges rest g1 g2b (edgeIndex + 1))
      else CopyUnmarkedGraph_edges rest g1 g2 edgeIndex)"

definition CopyUnmarkedGraph :: "Graph \<Rightarrow> Graph \<Rightarrow> nat \<Rightarrow> Graph \<times> Graph" where
  "CopyUnmarkedGraph g1 g2 vertexIndex =
     (let (g1a, g2a, vi) = CopyUnmarkedGraph_vertices [0..<numVertices g1] g1 g2 vertexIndex
      in (g1a, CopyUnmarkedGraph_edges [0..<numEdges g1a] g1a g2a 0))"

fun CompressGraph_markVertices :: "nat list \<Rightarrow> nat \<Rightarrow> Graph \<Rightarrow> nat \<Rightarrow> nat \<times> Graph" where
  "CompressGraph_markVertices [] instanceNo graph n = (n, graph)"
| "CompressGraph_markVertices (vi # rest) instanceNo graph n =
     (if \<not> vused (vertices graph ! vi) then
        CompressGraph_markVertices rest instanceNo
          (graph\<lparr>vertices := (vertices graph)[vi :=
                    (vertices graph ! vi)\<lparr>vused := True, vmap := instanceNo - 1\<rparr>]\<rparr>)
          (n + 1)
      else CompressGraph_markVertices rest instanceNo graph n)"

fun CompressGraph_markEdges :: "nat list \<Rightarrow> Graph \<Rightarrow> nat \<Rightarrow> nat \<times> Graph" where
  "CompressGraph_markEdges [] graph n = (n, graph)"
| "CompressGraph_markEdges (ei # rest) graph n =
     (if \<not> eused (edges graph ! ei)
      then CompressGraph_markEdges rest (set_eused graph ei True) (n + 1)
      else CompressGraph_markEdges rest graph n)"

fun CompressGraph_count ::
  "Instance list \<Rightarrow> nat \<Rightarrow> Graph \<Rightarrow> nat \<Rightarrow> nat \<Rightarrow> nat \<times> nat \<times> nat \<times> Graph" where
  "CompressGraph_count [] instanceNo graph nIV nIE = (instanceNo, nIV, nIE, graph)"
| "CompressGraph_count (inst # rest) instanceNo graph nIV nIE =
     (let (nIV1, g1) = CompressGraph_markVertices (inst_vertices inst) instanceNo graph nIV;
          (nIE1, g2) = CompressGraph_markEdges (inst_edges inst) g1 nIE
      in CompressGraph_count rest (instanceNo + 1) g2 nIV1 nIE1)"

fun CompressGraph_subVertices :: "nat list \<Rightarrow> nat \<Rightarrow> Graph \<Rightarrow> nat \<Rightarrow> Graph \<times> nat" where
  "CompressGraph_subVertices [] subLabelIndex cg vertexIndex = (cg, vertexIndex)"
| "CompressGraph_subVertices (v # rest) subLabelIndex cg vertexIndex =
     CompressGraph_subVertices rest subLabelIndex
       (cg\<lparr>vertices := (vertices cg)[vertexIndex :=
              \<lparr>vlabel = subLabelIndex, vedges = [], vmap = VERTEX_UNMAPPED,
               vused = False\<rparr>]\<rparr>)
       (vertexIndex + 1)"

fun CompressGraph_reset :: "Instance list \<Rightarrow> Graph \<Rightarrow> Graph" where
  "CompressGraph_reset [] graph = graph"
| "CompressGraph_reset (inst # rest) graph =
     CompressGraph_reset rest
       (MarkInstanceEdges inst (MarkInstanceVertices inst graph False) False)"

definition CompressGraph :: "Graph \<Rightarrow> Instance list \<Rightarrow> Parameters \<Rightarrow> Graph \<times> Graph" where
  "CompressGraph graph instanceList parameters =
     (let subLabelIndex = length (labelList parameters);
          overlapLabelIndex = length (labelList parameters) + 1;
          (instanceNo, numInstanceVertices, numInstanceEdges, g1) =
             CompressGraph_count instanceList 1 graph 0 0;
          nInstances = instanceNo - 1;
          nv = usub (numVertices g1) numInstanceVertices + nInstances;
          ne = usub (numEdges g1) numInstanceEdges;
          cg0 = AllocateGraph nv ne;
          (cg1, vertexIndex) = CompressGraph_subVertices [0..<nInstances] subLabelIndex cg0 0;
          (g2, cg2) = CopyUnmarkedGraph g1 cg1 vertexIndex;
          (cg3, g3) = (if allowInstanceOverlap parameters
                       then AddOverlapEdges cg2 g2 instanceList overlapLabelIndex 0 0
                       else (cg2, g2))
      in (cg3, CompressGraph_reset instanceList g3))"

text \<open>
  \<open>SizeOfCompressedGraph\<close>: \<open>size\<close> is a \<open>ULONG\<close> that the no-overlap branch decreases
  by whole instances, so its increments are taken modulo \<open>2 ^ 64\<close> as well.
\<close>

definition uadd :: "nat \<Rightarrow> nat \<Rightarrow> nat" where
  "uadd a b = (a + b) mod 2 ^ 64"

fun SizeOfCompressedGraph_markVertices :: "nat list \<Rightarrow> Graph \<Rightarrow> nat \<Rightarrow> nat \<times> Graph" where
  "SizeOfCompressedGraph_markVertices [] graph sz = (sz, graph)"
| "SizeOfCompressedGraph_markVertices (vi # rest) graph sz =
     (if \<not> vused (vertices graph ! vi)
      then SizeOfCompressedGraph_markVertices rest (set_vused graph vi True) (usub sz 1)
      else SizeOfCompressedGraph_markVertices rest graph sz)"

fun SizeOfCompressedGraph_markEdges :: "nat list \<Rightarrow> Graph \<Rightarrow> nat \<Rightarrow> nat \<times> Graph" where
  "SizeOfCompressedGraph_markEdges [] graph sz = (sz, graph)"
| "SizeOfCompressedGraph_markEdges (ei # rest) graph sz =
     (if \<not> eused (edges graph ! ei)
      then SizeOfCompressedGraph_markEdges rest (set_eused graph ei True) (usub sz 1)
      else SizeOfCompressedGraph_markEdges rest graph sz)"

fun SizeOfCompressedGraph_unique :: "Instance list \<Rightarrow> Graph \<Rightarrow> nat \<Rightarrow> nat \<times> Graph" where
  "SizeOfCompressedGraph_unique [] graph sz = (sz, graph)"
| "SizeOfCompressedGraph_unique (inst # rest) graph sz =
     (let (sz1, g1) = SizeOfCompressedGraph_markVertices (inst_vertices inst) graph
                          (uadd sz 1);
          (sz2, g2) = SizeOfCompressedGraph_markEdges (inst_edges inst) g1 sz1
      in SizeOfCompressedGraph_unique rest g2 sz2)"

fun SizeOfCompressedGraph_whole :: "Instance list \<Rightarrow> nat \<Rightarrow> nat" where
  "SizeOfCompressedGraph_whole [] sz = sz"
| "SizeOfCompressedGraph_whole (inst # rest) sz =
     SizeOfCompressedGraph_whole rest
       (usub (uadd sz 1) (uadd (inumVertices inst) (inumEdges inst)))"

definition SizeOfCompressedGraph ::
  "Graph \<Rightarrow> Instance list option \<Rightarrow> Parameters \<Rightarrow> nat \<times> Graph" where
  "SizeOfCompressedGraph graph instanceList parameters =
     (let sz = GraphSize graph in
      case instanceList of
        None \<Rightarrow> (sz, graph)
      | Some il \<Rightarrow>
          if allowInstanceOverlap parameters then
            (let (sz1, g1) = SizeOfCompressedGraph_unique il graph sz;
                 (n, g2) = NumOverlapEdges g1 il
             in (uadd sz1 n, CompressGraph_reset il g2))
          else (SizeOfCompressedGraph_whole il sz, graph))"

section \<open>Evaluation of a substructure (evaluate.c)\<close>

definition alloc :: "Graph \<Rightarrow> Store \<Rightarrow> gref \<times> Store" where
  "alloc g st =
     (next_ref st, st\<lparr>objs := (objs st)(next_ref st \<mapsto> g), next_ref := next_ref st + 1\<rparr>)"

definition put :: "gref \<Rightarrow> Graph \<Rightarrow> Store \<Rightarrow> Store" where
  "put a g st = st\<lparr>objs := (objs st)(a \<mapsto> g)\<rparr>"

definition FreeGraph :: "gref \<Rightarrow> Store \<Rightarrow> Store" where
  "FreeGraph a st = st\<lparr>objs := (objs st)(a := None)\<rparr>"

definition fdiv :: "real \<Rightarrow> real \<Rightarrow> real option" where
  "fdiv a b = (if b = 0 then None else Some (a / b))"

text \<open>
  The three arms of the \<open>switch\<close> of \<open>EvaluateSub\<close>. Each returns \<open>subValue\<close> with the
  store and the parameters as the arm leaves them. \<open>MDL\<close> and \<open>CompressGraph\<close> write
  into the graphs they are given (used flags, \<open>map\<close>), so the graphs are read from the
  store before and written back after each call. With a negative graph the first
  quotient assigned to \<open>subValue\<close> is overwritten before it is read, so each arm
  divides once, for the value it stores.
\<close>

definition compressed_DL ::
  "Store \<Rightarrow> gref \<Rightarrow> Instance list option \<Rightarrow> nat \<Rightarrow> gref \<Rightarrow> nat \<Rightarrow> Parameters
     \<Rightarrow> (real \<times> Store \<times> Parameters) option" where
  "compressed_DL st gr instanceList nInstances defr numLabels parameters =
     do {
       graph \<leftarrow> objs st gr;
       il \<leftarrow> instanceList;
       let (compressedGraph, graph1) = CompressGraph graph il parameters;
       let (cref, st1) = alloc compressedGraph (put gr graph1 st);
       let (bits, cg1, p1) = MDL compressedGraph numLabels parameters;
       let st2 = put cref cg1 st1;
       subGraph \<leftarrow> objs st2 defr;
       let sizeOfCompressedGraph = bits + ExternalEdgeBits cg1 subGraph nInstances;
       Some (sizeOfCompressedGraph, FreeGraph cref st2, p1)
     }"

definition EvaluateSub_MDL ::
  "Store \<Rightarrow> Substructure \<Rightarrow> Parameters \<Rightarrow> (real \<times> Store \<times> Parameters) option" where
  "EvaluateSub_MDL st sub parameters =
     do {
       let numLabels = length (labelList parameters);
       subGraph \<leftarrow> objs st (definition_ref sub);
       let (sizeOfSub, subGraph1, p1) = MDL subGraph numLabels parameters;
       let st1 = put (definition_ref sub) subGraph1 st;
       let sizeOfPosGraph = posGraphDL parameters;
       let numLabels1 = numLabels + 1;
       let numLabels2 =
             (if allowInstanceOverlap parameters \<and>
                 (InstancesOverlap (instances sub) \<or> InstancesOverlap (negInstances sub))
              then numLabels1 + 1 else numLabels1);
       (sizeOfCompressedPosGraph, st2, p2) \<leftarrow>
          compressed_DL st1 (posGraph parameters) (instances sub) (numInstances sub)
            (definition_ref sub) numLabels2 p1;
       (case negGraph parameters of
          None \<Rightarrow>
            do {
              subValue \<leftarrow> fdiv sizeOfPosGraph (sizeOfSub + sizeOfCompressedPosGraph);
              Some (subValue, st2, p2)
            }
        | Some nref \<Rightarrow>
            do {
              let sizeOfNegGraph = negGraphDL parameters;
              (sizeOfCompressedNegGraph, st3, p3) \<leftarrow>
                 compressed_DL st2 nref (negInstances sub) (numNegInstances sub)
                   (definition_ref sub) numLabels2 p2;
              subValue \<leftarrow>
                 fdiv (sizeOfPosGraph + sizeOfNegGraph)
                   (sizeOfSub + sizeOfCompressedPosGraph + sizeOfNegGraph -
                    sizeOfCompressedNegGraph);
              Some (subValue, st3, p3)
            })
     }"

definition EvaluateSub_SIZE ::
  "Store \<Rightarrow> Substructure \<Rightarrow> Parameters \<Rightarrow> (real \<times> Store \<times> Parameters) option" where
  "EvaluateSub_SIZE st sub parameters =
     do {
       subGraph \<leftarrow> objs st (definition_ref sub);
       let sizeOfSub = real (GraphSize subGraph);
       posG \<leftarrow> objs st (posGraph parameters);
       let sizeOfPosGraph = real (GraphSize posG);
       let (sz, posG1) = SizeOfCompressedGraph posG (instances sub) parameters;
       let sizeOfCompressedPosGraph = real sz;
       let st1 = put (posGraph parameters) posG1 st;
       (case negGraph parameters of
          None \<Rightarrow>
            do {
              subValue \<leftarrow> fdiv sizeOfPosGraph (sizeOfSub + sizeOfCompressedPosGraph);
              Some (subValue, st1, parameters)
            }
        | Some nref \<Rightarrow>
            do {
              negG \<leftarrow> objs st1 nref;
              let sizeOfNegGraph = real (GraphSize negG);
              let (nsz, negG1) = SizeOfCompressedGraph negG (negInstances sub) parameters;
              let sizeOfCompressedNegGraph = real nsz;
              subValue \<leftarrow>
                 fdiv (sizeOfPosGraph + sizeOfNegGraph)
                   (sizeOfSub + sizeOfCompressedPosGraph + sizeOfNegGraph -
                    sizeOfCompressedNegGraph);
              Some (subValue, put nref negG1 st1, parameters)
            })
     }"

definition EvaluateSub_SETCOVER ::
  "Store \<Rightarrow> Substructure \<Rightarrow> Parameters \<Rightarrow> (real \<times> Store \<times> Parameters) option" where
  "EvaluateSub_SETCOVER st sub parameters =
     do {
       posG \<leftarrow> objs st (posGraph parameters);
       let posEgsCovered = PosExamplesCovered posG sub parameters;
       negEgsCovered \<leftarrow>
          (case negGraph parameters of
             None \<Rightarrow> Some 0
           | Some nref \<Rightarrow>
               do { negG \<leftarrow> objs st nref; Some (NegExamplesCovered negG sub parameters) });
       subValue \<leftarrow>
          fdiv (real (posEgsCovered + usub (numNegEgs parameters) negEgsCovered))
            (real (numPosEgs parameters + numNegEgs parameters));
       Some (subValue, st, parameters)
     }"

definition EvaluateSub_switch ::
  "Store \<Rightarrow> Substructure \<Rightarrow> Parameters \<Rightarrow> (real \<times> Store \<times> Parameters) option" where
  "EvaluateSub_switch st sub parameters =
     (if evalMethod parameters = EVAL_MDL then EvaluateSub_MDL st sub parameters
      else if evalMethod parameters = EVAL_SIZE then EvaluateSub_SIZE st sub parameters
      else if evalMethod parameters = EVAL_SETCOVER then EvaluateSub_SETCOVER st sub parameters
      else Some (0, st, parameters))"

definition recursive_definition :: "Graph \<Rightarrow> nat \<Rightarrow> Graph" where
  "recursive_definition oldDefinition lbl =
     AddEdge (CopyGraph oldDefinition) 0 0 True lbl False"

definition EvaluateSub ::
  "Store \<Rightarrow> Substructure \<Rightarrow> Parameters \<Rightarrow> (Store \<times> Substructure \<times> Parameters) option"
  where
  "EvaluateSub st sub parameters =
     do {
       posG \<leftarrow> objs st (posGraph parameters);
       let sub1 = sub\<lparr>numExamples := PosExamplesCovered posG sub parameters\<rparr>;
       let sub2 = sub1\<lparr>numNegExamples := 0\<rparr>;
       sub3 \<leftarrow>
          (case negGraph parameters of
             None \<Rightarrow> Some sub2
           | Some nref \<Rightarrow>
               do { negG \<leftarrow> objs st nref;
                    Some (sub2\<lparr>numNegExamples := NegExamplesCovered negG sub2 parameters\<rparr>) });
       if recursive sub3 then
         do {
           let oldDefinition = definition_ref sub3;
           old \<leftarrow> objs st oldDefinition;
           let (newDefinition, st1) =
                 alloc (recursive_definition old (recursiveEdgeLabel sub3)) st;
           let sub4 = sub3\<lparr>definition_ref := newDefinition\<rparr>;
           (subValue, st2, p2) \<leftarrow> EvaluateSub_switch st1 sub4 parameters;
           let sub5 = sub4\<lparr>svalue := subValue\<rparr>;
           Some (FreeGraph (definition_ref sub5) st2,
                 sub5\<lparr>definition_ref := oldDefinition\<rparr>, p2)
         }
       else
         do {
           (subValue, st2, p2) \<leftarrow> EvaluateSub_switch st sub3 parameters;
           Some (st2, sub3\<lparr>svalue := subValue\<rparr>, p2)
         }
     }"

section \<open>Notions used to state the properties\<close>

text \<open>
  \<open>lgfact n\<close> is \<open>lg (n!)\<close>; \<open>cache_ok\<close> says that the cache of \<open>Log2Factorial\<close>
  holds these values (it starts as \<open>[0, 0]\<close> in \<open>GetParameters\<close>).
  \<open>wf_graph\<close> is the graph invariant of the data model: the counters are the array
  lengths, edge end points are vertices, and the adjacency array of a vertex holds
  exactly the edges incident to it.
\<close>

definition lgfact :: "nat \<Rightarrow> real" where
  "lgfact n = log 2 (fact n)"

definition cache_ok :: "Parameters \<Rightarrow> bool" where
  "cache_ok p \<longleftrightarrow> 2 \<le> length (log2Factorial p) \<and>
     (\<forall>i < length (log2Factorial p). log2Factorial p ! i = lgfact i)"

text \<open>\<open>same_but_cache p p'\<close>: the parameters differ at most in the cache of \<open>lg (n!)\<close>.\<close>

definition same_but_cache :: "Parameters \<Rightarrow> Parameters \<Rightarrow> bool" where
  "same_but_cache p p' \<longleftrightarrow>
     posGraph p' = posGraph p \<and> negGraph p' = negGraph p \<and>
     posGraphDL p' = posGraphDL p \<and> negGraphDL p' = negGraphDL p \<and>
     numPosEgs p' = numPosEgs p \<and> numNegEgs p' = numNegEgs p \<and>
     posEgsVertexIndices p' = posEgsVertexIndices p \<and>
     negEgsVertexIndices p' = negEgsVertexIndices p \<and>
     labelList p' = labelList p \<and> allowInstanceOverlap p' = allowInstanceOverlap p \<and>
     evalMethod p' = evalMethod p"

definition wf_graph :: "Graph \<Rightarrow> bool" where
  "wf_graph g \<longleftrightarrow>
     numVertices g = length (vertices g) \<and> numEdges g = length (edges g) \<and>
     (\<forall>e \<in> {..<length (edges g)}.
        vertex1 (edges g ! e) < length (vertices g) \<and>
        vertex2 (edges g ! e) < length (vertices g)) \<and>
     (\<forall>v \<in> {..<length (vertices g)}.
        (\<forall>e \<in> set (vedges (vertices g ! v)).
           e < length (edges g) \<and> (vertex1 (edges g ! e) = v \<or> vertex2 (edges g ! e) = v)) \<and>
        (\<forall>e \<in> {..<length (edges g)}.
           vertex1 (edges g ! e) = v \<or> vertex2 (edges g ! e) = v
             \<longrightarrow> e \<in> set (vedges (vertices g ! v))))"

definition vertices_unmarked :: "Graph \<Rightarrow> bool" where
  "vertices_unmarked g \<longleftrightarrow> (\<forall>v \<in> set (vertices g). \<not> vused v)"

definition unmarked :: "Graph \<Rightarrow> bool" where
  "unmarked g \<longleftrightarrow> (\<forall>v \<in> set (vertices g). \<not> vused v) \<and> (\<forall>e \<in> set (edges g). \<not> eused e)"

definition neighbours :: "Graph \<Rightarrow> nat \<Rightarrow> nat set" where
  "neighbours g i =
     {v2. \<exists>e < numEdges g.
        (directed (edges g ! e) \<and> vertex1 (edges g ! e) = i \<and> vertex2 (edges g ! e) = v2) \<or>
        (\<not> directed (edges g ! e) \<and> i \<le> v2 \<and>
           ((vertex1 (edges g ! e) = i \<and> vertex2 (edges g ! e) = v2) \<or>
            (vertex2 (edges g ! e) = i \<and> vertex1 (edges g ! e) = v2)))}"

definition Q_of :: "Graph \<Rightarrow> nat \<Rightarrow> nat list \<Rightarrow> nat set" where
  "Q_of g v1 es = {otherVertex (edges g ! e) v1 | e. e \<in> set es \<and> countsFrom (edges g ! e) v1}"

definition ends_in_range :: "Graph \<Rightarrow> nat list \<Rightarrow> bool" where
  "ends_in_range g es \<longleftrightarrow>
     (\<forall>e \<in> set es. vertex1 (edges g ! e) < length (vertices g) \<and>
                   vertex2 (edges g ! e) < length (vertices g))"

definition ends_of :: "Graph \<Rightarrow> nat list \<Rightarrow> nat set" where
  "ends_of g es = (\<Union>e \<in> set es. {vertex1 (edges g ! e), vertex2 (edges g ! e)})"

definition k_of :: "Graph \<Rightarrow> nat \<Rightarrow> nat" where
  "k_of g i = card (neighbours g i)"

definition B_of :: "Graph \<Rightarrow> nat" where
  "B_of g = Max (insert 0 (k_of g ` {..<numVertices g}))"

definition K_of :: "Graph \<Rightarrow> nat" where
  "K_of g = (\<Sum>i<numVertices g. k_of g i)"

definition M_scan :: "Graph \<Rightarrow> nat" where
  "M_scan g = Max (insert 0 (MaxEdgesToSingleVertex g ` {..<numVertices g}))"

definition lgchoose :: "nat \<Rightarrow> nat \<Rightarrow> real" where
  "lgchoose n k = log 2 (real (n choose k))"

definition MDL_bits :: "Graph \<Rightarrow> nat \<Rightarrow> real" where
  "MDL_bits g L =
     Log2 (numVertices g) + real (numVertices g) * Log2 L
     + real (numVertices g + 1) * Log2 (B_of g + 1)
     + (\<Sum>i<numVertices g. lgchoose (numVertices g) (k_of g i))
     + real (numEdges g) * (1 + Log2 L)
     + real (K_of g + 1) * Log2 (M_scan g)"

definition vmarks :: "Graph \<Rightarrow> nat set \<Rightarrow> bool" where
  "vmarks g S \<longleftrightarrow> (\<forall>v < length (vertices g). vused (vertices g ! v) = (v \<in> S))"

definition inst_vset :: "Instance list \<Rightarrow> nat set" where
  "inst_vset il = (\<Union>inst \<in> set il. set (inst_vertices inst))"

text \<open>Concrete inputs: graphs as \<open>AddVertex\<close> and \<open>AddEdge\<close> build them.\<close>

definition some_label :: Label where
  "some_label = \<lparr>labelValue = StringLabel ''A'', lused = False\<rparr>"

definition example_parameters :: Parameters where
  "example_parameters =
     \<lparr>posGraph = 0, negGraph = None, posGraphDL = 0, negGraphDL = 0,
      numPosEgs = 1, numNegEgs = 0, posEgsVertexIndices = [0], negEgsVertexIndices = [],
      labelList = [some_label], allowInstanceOverlap = False, evalMethod = EVAL_MDL,
      log2Factorial = [0, 0]\<rparr>"

definition fresh_vertex :: "nat \<Rightarrow> nat list \<Rightarrow> Vertex" where
  "fresh_vertex l es = \<lparr>vlabel = l, vedges = es, vmap = VERTEX_UNMAPPED, vused = False\<rparr>"

definition graph_one_vertex :: Graph where
  "graph_one_vertex =
     \<lparr>numVertices = 1, numEdges = 0, vertices = [fresh_vertex 0 []], edges = []\<rparr>"

definition graph_one_edge :: Graph where
  "graph_one_edge =
     \<lparr>numVertices = 2, numEdges = 1,
      vertices = [fresh_vertex 0 [0], fresh_vertex 0 [0]],
      edges = [new_edge 0 1 0 False False]\<rparr>"

definition instances_in_range :: "Graph \<Rightarrow> Instance list \<Rightarrow> bool" where
  "instances_in_range g il \<longleftrightarrow>
     (\<forall>inst \<in> set il. \<forall>v \<in> set (inst_vertices inst). v < length (vertices g))"

definition make_instance :: "nat list \<Rightarrow> nat list \<Rightarrow> Instance" where
  "make_instance vs es =
     \<lparr>inumVertices = length vs, inumEdges = length es, ivertices = vs, iedges = es,
      minMatchCost = 0, newVertex = 0, newEdge = 0, refCount = 1,
      mapping = map (\<lambda>i. (i, vs ! i)) [0..<length vs],
      mappingIndex1 = MAX_UNSIGNED_LONG, mappingIndex2 = MAX_UNSIGNED_LONG, iused = False\<rparr>"

text \<open>Two disjoint paths \<open>A - B - C\<close>, and the two instances of the path in it.\<close>

definition graph_two_paths :: Graph where
  "graph_two_paths =
     \<lparr>numVertices = 6, numEdges = 4,
      vertices = [fresh_vertex 0 [0], fresh_vertex 1 [0, 1], fresh_vertex 2 [1],
                  fresh_vertex 0 [2], fresh_vertex 1 [2, 3], fresh_vertex 2 [3]],
      edges = [new_edge 0 1 3 False False, new_edge 1 2 3 False False,
               new_edge 3 4 3 False False, new_edge 4 5 3 False False]\<rparr>"

definition instances_two_paths :: "Instance list" where
  "instances_two_paths = [make_instance [3, 4, 5] [2, 3], make_instance [0, 1, 2] [0, 1]]"

text \<open>
  Three vertices \<open>0 - 1 - 2\<close> with a second, parallel edge between 0 and 1, as
  \<open>AddVertex\<close> and \<open>AddEdge\<close> leave it (every \<open>map\<close> is \<open>VERTEX_UNMAPPED\<close>); the
  instances \<open>{0, 1}\<close> with edge 0 and \<open>{1, 2}\<close> with edge 2 share vertex 1.
\<close>

definition graph_parallel :: Graph where
  "graph_parallel =
     \<lparr>numVertices = 3, numEdges = 3,
      vertices = [fresh_vertex 0 [0, 1], fresh_vertex 0 [0, 1, 2], fresh_vertex 0 [2]],
      edges = [new_edge 0 1 0 False False, new_edge 0 1 0 False False,
               new_edge 1 2 0 False False]\<rparr>"

definition instances_sharing :: "Instance list" where
  "instances_sharing = [make_instance [0, 1] [0], make_instance [1, 2] [2]]"

definition overlap_parameters :: Parameters where
  "overlap_parameters =
     example_parameters\<lparr>allowInstanceOverlap := True, evalMethod := EVAL_SIZE\<rparr>"

text \<open>
  The vertex range of example \<open>i\<close> runs from its start index up to, and without, the
  start index of the next example (the number of vertices, for the last example);
  \<open>examples_covered_count\<close> counts the examples whose range holds the first vertex of
  some instance. \<open>egs_ok\<close> singles out the inputs on which no end index of
  \<open>ExamplesCovered\<close> wraps: no example after the first starts at index 0 and a graph
  with examples has a vertex. The input reader does not enforce it.
\<close>

definition egs_ok :: "nat \<Rightarrow> nat list \<Rightarrow> nat \<Rightarrow> bool" where
  "egs_ok numEgs egs V \<longleftrightarrow>
     (\<forall>i. Suc i < numEgs \<longrightarrow> 0 < egs ! Suc i) \<and> (0 < numEgs \<longrightarrow> 0 < V)"

definition example_covered :: "Instance list \<Rightarrow> nat \<Rightarrow> nat list \<Rightarrow> nat \<Rightarrow> nat \<Rightarrow> bool" where
  "example_covered il numEgs egs V i \<longleftrightarrow>
     (\<exists>inst \<in> set il.
        egs ! i \<le> ivertices inst ! 0 \<and>
        ivertices inst ! 0 < (if Suc i < numEgs then egs ! Suc i else V))"

definition examples_covered_count ::
  "Instance list option \<Rightarrow> nat \<Rightarrow> nat list \<Rightarrow> nat \<Rightarrow> nat" where
  "examples_covered_count instanceList numEgs egs V =
     (case instanceList of
        None \<Rightarrow> 0
      | Some il \<Rightarrow> card {i. i < numEgs \<and> example_covered il numEgs egs V i})"

definition store_ok :: "Store \<Rightarrow> bool" where
  "store_ok st \<longleftrightarrow> (\<forall>a. objs st a \<noteq> None \<longrightarrow> a < next_ref st)"

text \<open>\<open>same_but_vused g g'\<close>: the two graphs differ at most in the used flags of vertices.\<close>

definition same_but_vused :: "Graph \<Rightarrow> Graph \<Rightarrow> bool" where
  "same_but_vused g g' \<longleftrightarrow>
     numVertices g' = numVertices g \<and> numEdges g' = numEdges g \<and> edges g' = edges g \<and>
     length (vertices g') = length (vertices g) \<and>
     (\<forall>v < length (vertices g).
        vlabel (vertices g' ! v) = vlabel (vertices g ! v) \<and>
        vedges (vertices g' ! v) = vedges (vertices g ! v) \<and>
        vmap (vertices g' ! v) = vmap (vertices g ! v))"

text \<open>
  The input file \<open>XP XP v 1 A v 2 A\<close>: two positive examples, both starting at vertex
  index 0. The first holds no vertex, the second the two vertices labelled \<open>A\<close>. The
  substructure is the single vertex \<open>A\<close> with its two instances, as \<open>GetInitialSubs\<close>
  builds it.
\<close>

definition graph_two_vertices :: Graph where
  "graph_two_vertices =
     \<lparr>numVertices = 2, numEdges = 0, vertices = [fresh_vertex 0 [], fresh_vertex 0 []],
      edges = []\<rparr>"

definition empty_example_store :: Store where
  "empty_example_store =
     \<lparr>objs = [0 \<mapsto> graph_two_vertices, 1 \<mapsto> graph_one_vertex], next_ref = 2\<rparr>"

definition empty_example_parameters :: Parameters where
  "empty_example_parameters =
     \<lparr>posGraph = 0, negGraph = None, posGraphDL = 0, negGraphDL = 0,
      numPosEgs = 2, numNegEgs = 0, posEgsVertexIndices = [0, 0], negEgsVertexIndices = [],
      labelList = [some_label], allowInstanceOverlap = False, evalMethod = EVAL_SETCOVER,
      log2Factorial = [0, 0]\<rparr>"

definition vertex_substructure :: Substructure where
  "vertex_substructure =
     \<lparr>definition_ref = 1, numInstances = 2, numExamples = 0,
      instances = Some [make_instance [1] [], make_instance [0] []],
      numNegInstances = 0, numNegExamples = 0, negInstances = None, svalue = - 1,
      recursive = False, recursiveEdgeLabel = 0, posIncrementValue = 0,
      negIncrementValue = 0\<rparr>"

text \<open>
  Parallel edges. \<open>parallel_edges g u v\<close> are the edges from \<open>u\<close> to \<open>v\<close>: the directed
  edges with source \<open>u\<close> and target \<open>v\<close> and the undirected edges that join the two
  vertices; \<open>multiplicity\<close> is their number and \<open>max_multiplicity\<close> the largest
  multiplicity between two vertices of the graph. \<open>adjacency_distinct\<close>: an adjacency
  array lists an edge once (\<open>AddEdgeToVertices\<close> adds a self-edge to one array only).
  \<open>unmixed\<close>: two edges that join the same two vertices are both directed or both
  undirected.
\<close>

definition parallel_edges :: "Graph \<Rightarrow> nat \<Rightarrow> nat \<Rightarrow> nat set" where
  "parallel_edges g u v =
     {e. e < numEdges g \<and>
        ((vertex1 (edges g ! e) = u \<and> vertex2 (edges g ! e) = v) \<or>
         (\<not> directed (edges g ! e) \<and>
            vertex1 (edges g ! e) = v \<and> vertex2 (edges g ! e) = u))}"

definition multiplicity :: "Graph \<Rightarrow> nat \<Rightarrow> nat \<Rightarrow> nat" where
  "multiplicity g u v = card (parallel_edges g u v)"

definition max_multiplicity :: "Graph \<Rightarrow> nat" where
  "max_multiplicity g =
     Max (insert 0 ((\<lambda>(u, v). multiplicity g u v) `
                      ({..<numVertices g} \<times> {..<numVertices g})))"

definition adjacency_distinct :: "Graph \<Rightarrow> bool" where
  "adjacency_distinct g \<longleftrightarrow> (\<forall>v < numVertices g. distinct (vedges (vertices g ! v)))"

definition joins :: "Edge \<Rightarrow> nat \<Rightarrow> nat \<Rightarrow> bool" where
  "joins e u v \<longleftrightarrow> (vertex1 e = u \<and> vertex2 e = v) \<or> (vertex1 e = v \<and> vertex2 e = u)"

definition unmixed :: "Graph \<Rightarrow> bool" where
  "unmixed g \<longleftrightarrow>
     (\<forall>e < numEdges g. \<forall>e' < numEdges g.
        joins (edges g ! e') (vertex1 (edges g ! e)) (vertex2 (edges g ! e)) \<longrightarrow>
        directed (edges g ! e') = directed (edges g ! e))"

definition counted :: "Graph \<Rightarrow> nat \<Rightarrow> Edge \<Rightarrow> nat \<Rightarrow> nat \<Rightarrow> bool" where
  "counted g v1 edge1 v2 e \<longleftrightarrow>
     otherVertex (edges g ! e) v1 = v2 \<and>
     ((directed (edges g ! e) \<and> vertex1 (edges g ! e) = v1) \<or>
      (\<not> directed edge1 \<and> otherVertex (edges g ! e) v1 \<ge> v1))"

text \<open>
  The description length as the specification words it, with \<open>V \<sqdot> (1 + lg L)\<close> bits for
  the vertices and \<open>M\<close> the largest parallel-edge multiplicity.
\<close>

definition MDL_claimed :: "Graph \<Rightarrow> nat \<Rightarrow> real" where
  "MDL_claimed g L =
     real (numVertices g) * (1 + Log2 L)
     + real (numVertices g + 1) * Log2 (B_of g + 1)
     + (\<Sum>i<numVertices g. lgchoose (numVertices g) (k_of g i))
     + real (numEdges g) * (1 + Log2 L)
     + real (K_of g + 1) * Log2 (max_multiplicity g)"

text \<open>
  Four vertices, two parallel directed edges from 0 to 1 and two parallel undirected
  edges between 2 and 3.
\<close>

definition graph_double_edges :: Graph where
  "graph_double_edges =
     \<lparr>numVertices = 4, numEdges = 4,
      vertices = [fresh_vertex 0 [0, 1], fresh_vertex 0 [0, 1],
                  fresh_vertex 0 [2, 3], fresh_vertex 0 [2, 3]],
      edges = [new_edge 0 1 0 True False, new_edge 0 1 0 True False,
               new_edge 2 3 0 False False, new_edge 2 3 0 False False]\<rparr>"

text \<open>
  The quantities of the value computed under \<open>EVAL_MDL\<close>, each from the graphs and
  the parameters \<open>EvaluateSub\<close> is called with: \<open>compressed_size\<close> is \<open>DL(G|S)\<close>, the
  description length of the graph compressed with the instances plus the external
  edge bits, and \<open>compressed_labels\<close> is the number of labels after \<open>SUB\<close> and, when
  instances overlap, \<open>OVERLAP\<close> have been added.
\<close>

definition compressed_size ::
  "Graph \<Rightarrow> Instance list \<Rightarrow> nat \<Rightarrow> Graph \<Rightarrow> nat \<Rightarrow> Parameters \<Rightarrow> real" where
  "compressed_size graph il n subGraph L p =
     fst (MDL (fst (CompressGraph graph il p)) L p) +
     ExternalEdgeBits (fst (snd (MDL (fst (CompressGraph graph il p)) L p))) subGraph n"

definition compressed_labels :: "Substructure \<Rightarrow> Parameters \<Rightarrow> nat" where
  "compressed_labels sub p =
     (if allowInstanceOverlap p \<and>
         (InstancesOverlap (instances sub) \<or> InstancesOverlap (negInstances sub))
      then length (labelList p) + 2 else length (labelList p) + 1)"

text \<open>
  \<open>examples_counted\<close> is the substructure after the first lines of \<open>EvaluateSub\<close>, with
  its two example counts set; \<open>scored_definition\<close> is the definition graph the switch
  reads: the definition itself, or for a recursive substructure the temporary copy
  with the recursive edge.
\<close>

definition examples_counted :: "Graph \<Rightarrow> Graph option \<Rightarrow> Substructure \<Rightarrow> Parameters \<Rightarrow> Substructure"
  where
  "examples_counted posG negG sub p =
     sub\<lparr>numExamples := PosExamplesCovered posG sub p,
         numNegExamples :=
           (case negG of None \<Rightarrow> 0 | Some g \<Rightarrow> NegExamplesCovered g sub p)\<rparr>"

definition scored_definition :: "Graph \<Rightarrow> Substructure \<Rightarrow> Graph" where
  "scored_definition d sub =
     (if recursive sub then recursive_definition d (recursiveEdgeLabel sub) else d)"

text \<open>
  The denominator of the value under \<open>EVAL_MDL\<close> with a negative graph:
  \<open>DL(S) + DL(G\<^sub>p|S) + DL(G\<^sub>n) - DL(G\<^sub>n|S)\<close>, and the value as the specification words
  it, with \<open>DL(G\<^sub>p)\<close> alone above the line. \<open>DL(G\<^sub>p)\<close> and \<open>DL(G\<^sub>n)\<close> are the values
  \<open>posGraphDL\<close> and \<open>negGraphDL\<close> that \<open>main\<close> computes once with \<open>MDL\<close> and
  \<open>EvaluateSub\<close> reads from the parameters.
\<close>

definition mdl_denominator ::
  "Graph \<Rightarrow> Graph \<Rightarrow> Graph \<Rightarrow> Instance list \<Rightarrow> Instance list \<Rightarrow> Substructure \<Rightarrow> Parameters
     \<Rightarrow> real" where
  "mdl_denominator dS gp gn ilp iln sub p =
     fst (MDL dS (length (labelList p)) p)
     + compressed_size gp ilp (numInstances sub) dS (compressed_labels sub p) p
     + negGraphDL p
     - compressed_size gn iln (numNegInstances sub) dS (compressed_labels sub p) p"

definition mdl_value_claimed ::
  "Graph \<Rightarrow> Graph \<Rightarrow> Graph \<Rightarrow> Instance list \<Rightarrow> Instance list \<Rightarrow> Substructure \<Rightarrow> Parameters
     \<Rightarrow> real" where
  "mdl_value_claimed dS gp gn ilp iln sub p =
     posGraphDL p / mdl_denominator dS gp gn ilp iln sub p"

text \<open>
  An MDL run with a negative graph: the positive and the negative graph are two
  vertices labelled \<open>A\<close> each (description length 1 with one label), the substructure is
  the single vertex \<open>A\<close> with two instances in each graph.
\<close>

definition mdl_store :: Store where
  "mdl_store =
     \<lparr>objs = [0 \<mapsto> graph_two_vertices, 1 \<mapsto> graph_two_vertices, 2 \<mapsto> graph_one_vertex],
      next_ref = 3\<rparr>"

definition mdl_parameters :: Parameters where
  "mdl_parameters =
     \<lparr>posGraph = 0, negGraph = Some 1, posGraphDL = 1, negGraphDL = 1,
      numPosEgs = 1, numNegEgs = 1, posEgsVertexIndices = [0], negEgsVertexIndices = [0],
      labelList = [some_label], allowInstanceOverlap = False, evalMethod = EVAL_MDL,
      log2Factorial = [0, 0]\<rparr>"

definition vertex_instances :: "Instance list" where
  "vertex_instances = [make_instance [1] [], make_instance [0] []]"

definition mdl_substructure :: Substructure where
  "mdl_substructure =
     \<lparr>definition_ref = 2, numInstances = 2, numExamples = 0,
      instances = Some vertex_instances, numNegInstances = 2, numNegExamples = 0,
      negInstances = Some vertex_instances, svalue = - 1, recursive = False,
      recursiveEdgeLabel = 0, posIncrementValue = 0, negIncrementValue = 0\<rparr>"

section \<open>Lemmas and theorems\<close>

lemma Log2_log: "0 < n \<Longrightarrow> Log2 n = log 2 (real n)"
  by (simp add: Log2_def log_def)

lemma lgfact_0 [simp]: "lgfact 0 = 0" by (simp add: lgfact_def)

lemma lgfact_Suc: "lgfact (Suc n) = Log2 (Suc n) + lgfact n"
proof -
  have "log 2 (fact (Suc n)) = log 2 (real (Suc n) * fact n)" by simp
  also have "\<dots> = log 2 (real (Suc n)) + log 2 (fact n)"
    by (rule log_mult_pos) simp_all
  finally show ?thesis by (simp add: lgfact_def Log2_log)
qed

lemma usub_le: "b \<le> a \<Longrightarrow> usub a b = a - b"
  by (simp add: usub_def)

lemma fill_length [simp]: "length (Log2Factorial_fill is c) = length c"
  by (induction "is" arbitrary: c) simp_all

lemma fill_ok:
  "\<lbrakk>0 < i0; i0 \<le> n; n \<le> length c; \<forall>i<i0. c ! i = lgfact i\<rbrakk>
   \<Longrightarrow> \<forall>i<n. Log2Factorial_fill [i0..<n] c ! i = lgfact i"
proof (induction "n - i0" arbitrary: i0 c)
  case 0
  then show ?case by simp
next
  case (Suc k)
  then have lt: "i0 < n" by linarith
  let ?c = "c[i0 := Log2 i0 + c ! (usub i0 1)]"
  have pred: "c ! (usub i0 1) = lgfact (i0 - 1)"
    using Suc.prems by (simp add: usub_le)
  have new: "Log2 i0 + c ! (usub i0 1) = lgfact i0"
    using lgfact_Suc [of "i0 - 1"] Suc.prems(1) pred by simp
  have inv: "\<forall>i<Suc i0. ?c ! i = lgfact i"
  proof (intro allI impI)
    fix i assume "i < Suc i0"
    then show "?c ! i = lgfact i"
      using Suc.prems lt new by (cases "i = i0") (simp_all add: less_Suc_eq)
  qed
  have "\<forall>i<n. Log2Factorial_fill [Suc i0..<n] ?c ! i = lgfact i"
    using Suc.hyps(1) [of "Suc i0" ?c] Suc.hyps(2) lt Suc.prems(3) inv by simp
  then show ?case using lt by (simp add: upt_conv_Cons)
qed

lemma same_but_cache_refl [simp]: "same_but_cache p p"
  by (simp add: same_but_cache_def)

lemma same_but_cache_trans:
  "same_but_cache p q \<Longrightarrow> same_but_cache q r \<Longrightarrow> same_but_cache p r"
  by (simp add: same_but_cache_def)

lemma Log2Factorial_ok:
  assumes "cache_ok p"
  shows "fst (Log2Factorial n p) = lgfact n"
    and "cache_ok (snd (Log2Factorial n p))"
    and "same_but_cache p (snd (Log2Factorial n p))"
proof -
  let ?c = "log2Factorial p"
  let ?n = "n + LIST_SIZE_INC"
  let ?c1 = "?c @ replicate (?n - length ?c) 0"
  let ?c2 = "Log2Factorial_fill [length ?c..<?n] ?c1"
  have len: "2 \<le> length ?c" and old: "\<forall>i<length ?c. ?c ! i = lgfact i"
    using assms by (simp_all add: cache_ok_def)
  have grow: "\<forall>i<?n. ?c2 ! i = lgfact i" if "length ?c \<le> n"
  proof (rule fill_ok)
    show "0 < length ?c" using len by linarith
    show "length ?c \<le> ?n" using that by simp
    show "?n \<le> length ?c1" by simp
    show "\<forall>i<length ?c. ?c1 ! i = lgfact i" using old by (simp add: nth_append)
  qed
  have len2: "length ?c2 = ?n" if "length ?c \<le> n" using that by simp
  show "fst (Log2Factorial n p) = lgfact n"
    using grow old by (simp add: Log2Factorial_def Let_def LIST_SIZE_INC_def)
  show "cache_ok (snd (Log2Factorial n p))"
  proof (cases "length ?c \<le> n")
    case True
    then show ?thesis using grow len2 len
      by (simp add: Log2Factorial_def Let_def cache_ok_def LIST_SIZE_INC_def)
  next
    case False
    then show ?thesis using assms by (simp add: Log2Factorial_def Let_def)
  qed
  show "same_but_cache p (snd (Log2Factorial n p))"
    by (simp add: Log2Factorial_def Let_def same_but_cache_def)
qed

lemma wf_graph_numV: "wf_graph g \<Longrightarrow> numVertices g = length (vertices g)"
  unfolding wf_graph_def by blast

lemma wf_graph_numE: "wf_graph g \<Longrightarrow> numEdges g = length (edges g)"
  unfolding wf_graph_def by blast

lemma wf_graph_ends:
  "wf_graph g \<Longrightarrow> e < length (edges g) \<Longrightarrow>
   vertex1 (edges g ! e) < length (vertices g) \<and> vertex2 (edges g ! e) < length (vertices g)"
  unfolding wf_graph_def Ball_def lessThan_iff by blast

lemma wf_graph_adj:
  "wf_graph g \<Longrightarrow> v < length (vertices g) \<Longrightarrow> e \<in> set (vedges (vertices g ! v)) \<Longrightarrow>
   e < length (edges g) \<and> (vertex1 (edges g ! e) = v \<or> vertex2 (edges g ! e) = v)"
  unfolding wf_graph_def Ball_def lessThan_iff by blast

lemma wf_graph_adj_mem:
  "wf_graph g \<Longrightarrow> v < length (vertices g) \<Longrightarrow> e < length (edges g) \<Longrightarrow>
   vertex1 (edges g ! e) = v \<or> vertex2 (edges g ! e) = v \<Longrightarrow>
   e \<in> set (vedges (vertices g ! v))"
  unfolding wf_graph_def Ball_def lessThan_iff by blast

text \<open>\<open>marks g g' S\<close>: \<open>g'\<close> is \<open>g\<close> with the used flag of vertex \<open>v\<close> set exactly for \<open>v \<in> S\<close>.\<close>
definition marks :: "Graph \<Rightarrow> Graph \<Rightarrow> nat set \<Rightarrow> bool" where
  "marks g g' S \<longleftrightarrow>
     numVertices g' = numVertices g \<and> numEdges g' = numEdges g \<and> edges g' = edges g \<and>
     length (vertices g') = length (vertices g) \<and>
     (\<forall>v < length (vertices g). vertices g' ! v = (vertices g ! v)\<lparr>vused := v \<in> S\<rparr>)"

lemma marks_set_vused:
  "marks g g' S \<Longrightarrow> v < length (vertices g) \<Longrightarrow>
   marks g (set_vused g' v b) (if b then insert v S else S - {v})"
  by (auto simp: marks_def set_vused_def nth_list_update)

lemma marks_vused:
  "marks g g' S \<Longrightarrow> v < length (vertices g) \<Longrightarrow> vused (vertices g' ! v) = (v \<in> S)"
  by (simp add: marks_def)

lemma marks_empty_eq:
  assumes "marks g g' {}" "\<forall>v \<in> set (vertices g). \<not> vused v"
  shows "g' = g"
proof -
  have "vertices g' = vertices g"
  proof (rule nth_equalityI)
    show "length (vertices g') = length (vertices g)" using assms(1) by (simp add: marks_def)
    fix i assume "i < length (vertices g')"
    then have i: "i < length (vertices g)" using assms(1) by (simp add: marks_def)
    then have "\<not> vused (vertices g ! i)" using assms(2) by simp
    then have "(vertices g ! i)\<lparr>vused := False\<rparr> = vertices g ! i" by simp
    then show "vertices g' ! i = vertices g ! i" using assms(1) i by (simp add: marks_def)
  qed
  then show ?thesis using assms(1) by (simp add: marks_def)
qed

lemma marks_self: "\<forall>v \<in> set (vertices g). \<not> vused v \<Longrightarrow> marks g g {}"
  by (simp add: marks_def)

lemma Q_of_Nil [simp]: "Q_of g v1 [] = {}" by (simp add: Q_of_def)

lemma Q_of_Cons:
  "Q_of g v1 (e # es) =
     (if countsFrom (edges g ! e) v1 then insert (otherVertex (edges g ! e) v1) (Q_of g v1 es)
      else Q_of g v1 es)"
  by (auto simp: Q_of_def)

lemma finite_Q_of [simp]: "finite (Q_of g v1 es)"
  by (induction es) (simp_all add: Q_of_Cons)

lemma otherVertex_range:
  "vertex1 ed < n \<Longrightarrow> vertex2 ed < n \<Longrightarrow> otherVertex ed v < n"
  by (simp add: otherVertex_def)

lemma count_loop:
  "\<lbrakk>marks g g' S; finite S; ends_in_range g es\<rbrakk> \<Longrightarrow>
   fst (NumUniqueEdges_count v1 es g' n) = n + card (Q_of g v1 es - S) \<and>
   marks g (snd (NumUniqueEdges_count v1 es g' n)) (S \<union> Q_of g v1 es)"
proof (induction es arbitrary: g' S n)
  case Nil
  then show ?case by simp
next
  case (Cons e es)
  let ?ed = "edges g ! e"
  let ?v2 = "otherVertex ?ed v1"
  have ed: "edges g' ! e = ?ed" using Cons.prems(1) by (simp add: marks_def)
  have rng: "?v2 < length (vertices g)"
    using Cons.prems(3) by (simp add: ends_in_range_def otherVertex_range)
  have rest: "ends_in_range g es" using Cons.prems(3) by (simp add: ends_in_range_def)
  have used: "vused (vertices g' ! ?v2) = (?v2 \<in> S)"
    using marks_vused [OF Cons.prems(1) rng] .
  show ?case
  proof (cases "countsFrom ?ed v1 \<and> ?v2 \<notin> S")
    case True
    have m: "marks g (set_vused g' ?v2 True) (insert ?v2 S)"
      using marks_set_vused [OF Cons.prems(1) rng, of True] by simp
    have fin: "finite (insert ?v2 S)" using Cons.prems(2) by simp
    have ih: "fst (NumUniqueEdges_count v1 es (set_vused g' ?v2 True) (n + 1)) =
                n + 1 + card (Q_of g v1 es - insert ?v2 S) \<and>
              marks g (snd (NumUniqueEdges_count v1 es (set_vused g' ?v2 True) (n + 1)))
                (insert ?v2 S \<union> Q_of g v1 es)"
      using Cons.IH [OF m fin rest] .
    have split: "Q_of g v1 (e # es) - S = insert ?v2 (Q_of g v1 es - insert ?v2 S)"
      using True by (auto simp: Q_of_Cons)
    have c: "card (Q_of g v1 (e # es) - S) = 1 + card (Q_of g v1 es - insert ?v2 S)"
      unfolding split by simp
    have u: "S \<union> Q_of g v1 (e # es) = insert ?v2 S \<union> Q_of g v1 es"
      using True by (auto simp: Q_of_Cons)
    have step: "NumUniqueEdges_count v1 (e # es) g' n =
                NumUniqueEdges_count v1 es (set_vused g' ?v2 True) (n + 1)"
      using True used ed by (simp add: Let_def)
    show ?thesis unfolding step c u using ih by simp
  next
    case False
    have ih: "fst (NumUniqueEdges_count v1 es g' n) = n + card (Q_of g v1 es - S) \<and>
              marks g (snd (NumUniqueEdges_count v1 es g' n)) (S \<union> Q_of g v1 es)"
      using Cons.IH [OF Cons.prems(1) Cons.prems(2) rest] .
    have d: "Q_of g v1 (e # es) - S = Q_of g v1 es - S"
      using False by (auto simp: Q_of_Cons)
    have u: "S \<union> Q_of g v1 (e # es) = S \<union> Q_of g v1 es"
      using False by (auto simp: Q_of_Cons)
    have step: "NumUniqueEdges_count v1 (e # es) g' n = NumUniqueEdges_count v1 es g' n"
      using False used ed by (auto simp: Let_def)
    show ?thesis unfolding step d u using ih by simp
  qed
qed

lemma reset_loop:
  "\<lbrakk>marks g g' S; ends_in_range g es\<rbrakk> \<Longrightarrow>
   marks g (NumUniqueEdges_reset es g') (S - ends_of g es)"
proof (induction es arbitrary: g' S)
  case Nil
  then show ?case by (simp add: ends_of_def)
next
  case (Cons e es)
  let ?ed = "edges g ! e"
  have ed: "edges g' ! e = ?ed" using Cons.prems(1) by (simp add: marks_def)
  have r1: "vertex1 ?ed < length (vertices g)" and r2: "vertex2 ?ed < length (vertices g)"
    using Cons.prems(2) by (simp_all add: ends_in_range_def)
  have rest: "ends_in_range g es" using Cons.prems(2) by (simp add: ends_in_range_def)
  have m1: "marks g (set_vused g' (vertex1 ?ed) False) (S - {vertex1 ?ed})"
    using marks_set_vused [OF Cons.prems(1) r1, of False] by simp
  have m2: "marks g (set_vused (set_vused g' (vertex1 ?ed) False) (vertex2 ?ed) False)
              (S - {vertex1 ?ed} - {vertex2 ?ed})"
    using marks_set_vused [OF m1 r2, of False] by simp
  have s: "S - {vertex1 ?ed} - {vertex2 ?ed} - ends_of g es = S - ends_of g (e # es)"
    by (auto simp: ends_of_def)
  have step: "NumUniqueEdges_reset (e # es) g' =
      NumUniqueEdges_reset es (set_vused (set_vused g' (vertex1 ?ed) False) (vertex2 ?ed) False)"
    using ed by (simp add: Let_def)
  show ?case unfolding step using Cons.IH [OF m2 rest] unfolding s .
qed

lemma Q_sub_ends: "Q_of g v1 es \<subseteq> ends_of g es"
  by (auto simp: Q_of_def ends_of_def otherVertex_def)

lemma wf_adj_range:
  assumes "wf_graph g" "v < numVertices g"
  shows "ends_in_range g (vedges (vertices g ! v))"
  unfolding ends_in_range_def
proof
  fix e assume e: "e \<in> set (vedges (vertices g ! v))"
  have v: "v < length (vertices g)" using assms by (simp add: wf_graph_numV)
  have "e < length (edges g)" using wf_graph_adj [OF assms(1) v e] by simp
  then show "vertex1 (edges g ! e) < length (vertices g) \<and>
             vertex2 (edges g ! e) < length (vertices g)"
    by (rule wf_graph_ends [OF assms(1)])
qed

lemma Q_neighbours:
  assumes "wf_graph g" "v < numVertices g"
  shows "Q_of g v (vedges (vertices g ! v)) = neighbours g v"
proof -
  have v: "v < length (vertices g)" and ne: "numEdges g = length (edges g)"
    using assms by (simp_all add: wf_graph_numV wf_graph_numE)
  note inc = wf_graph_adj [OF assms(1) v]
  note mem = wf_graph_adj_mem [OF assms(1) v]
  show ?thesis
  proof (rule set_eqI, rule iffI)
    fix x assume "x \<in> Q_of g v (vedges (vertices g ! v))"
    then obtain e where e: "e \<in> set (vedges (vertices g ! v))"
      and x: "x = otherVertex (edges g ! e) v" and c: "countsFrom (edges g ! e) v"
      by (auto simp: Q_of_def)
    from inc [OF e] x c show "x \<in> neighbours g v"
      unfolding neighbours_def ne countsFrom_def otherVertex_def
      by (intro CollectI exI [of _ e]) (auto split: if_splits)
  next
    fix x assume "x \<in> neighbours g v"
    then obtain e where e: "e < length (edges g)"
      and d: "(directed (edges g ! e) \<and> vertex1 (edges g ! e) = v \<and> vertex2 (edges g ! e) = x) \<or>
        (\<not> directed (edges g ! e) \<and> v \<le> x \<and>
           ((vertex1 (edges g ! e) = v \<and> vertex2 (edges g ! e) = x) \<or>
            (vertex2 (edges g ! e) = v \<and> vertex1 (edges g ! e) = x)))"
      unfolding neighbours_def ne by blast
    from d have "vertex1 (edges g ! e) = v \<or> vertex2 (edges g ! e) = v" by blast
    then have m: "e \<in> set (vedges (vertices g ! v))" using mem [OF e] by simp
    from d have "x = otherVertex (edges g ! e) v \<and> countsFrom (edges g ! e) v"
      unfolding countsFrom_def otherVertex_def by auto
    then show "x \<in> Q_of g v (vedges (vertices g ! v))"
      using m unfolding Q_of_def by blast
  qed
qed

lemma NumUniqueEdges_ok:
  assumes "wf_graph g" "\<forall>v \<in> set (vertices g). \<not> vused v" "v < numVertices g"
  shows "NumUniqueEdges g v = (card (neighbours g v), g)"
proof -
  let ?es = "vedges (vertices g ! v)"
  have rng: "ends_in_range g ?es" using wf_adj_range [OF assms(1,3)] .
  have c: "fst (NumUniqueEdges_count v ?es g 0) = 0 + card (Q_of g v ?es - {}) \<and>
           marks g (snd (NumUniqueEdges_count v ?es g 0)) ({} \<union> Q_of g v ?es)"
    by (rule count_loop [OF marks_self [OF assms(2)] _ rng]) simp
  then have m: "marks g (snd (NumUniqueEdges_count v ?es g 0)) (Q_of g v ?es)" by simp
  have "marks g (NumUniqueEdges_reset ?es (snd (NumUniqueEdges_count v ?es g 0)))
          (Q_of g v ?es - ends_of g ?es)"
    by (rule reset_loop [OF m rng])
  moreover have "Q_of g v ?es - ends_of g ?es = {}" using Q_sub_ends [of g v ?es] by blast
  ultimately have "NumUniqueEdges_reset ?es (snd (NumUniqueEdges_count v ?es g 0)) = g"
    using marks_empty_eq assms(2) by simp
  then show ?thesis
    using c Q_neighbours [OF assms(1,3)]
    by (simp add: NumUniqueEdges_def Let_def split_beta)
qed

lemma neighbours_bound:
  assumes "wf_graph g"
  shows "neighbours g v \<subseteq> {..<numVertices g}"
proof
  fix x assume "x \<in> neighbours g v"
  then obtain e where e: "e < numEdges g"
    and x: "vertex1 (edges g ! e) = x \<or> vertex2 (edges g ! e) = x"
    unfolding neighbours_def by blast
  have "e < length (edges g)" using e assms by (simp add: wf_graph_numE)
  from wf_graph_ends [OF assms this] x show "x \<in> {..<numVertices g}"
    using assms by (auto simp: wf_graph_numV)
qed

lemma card_neighbours_le:
  assumes "wf_graph g"
  shows "card (neighbours g v) \<le> numVertices g"
proof -
  have "card (neighbours g v) \<le> card {..<numVertices g}"
    by (rule card_mono [OF _ neighbours_bound [OF assms]]) simp
  then show ?thesis by simp
qed

lemma lgchoose_fact:
  assumes "k \<le> n"
  shows "lgfact n - (lgfact k + lgfact (n - k)) = lgchoose n k"
proof -
  have "real (n choose k) = fact n / (fact k * fact (n - k))"
    using assms by (rule binomial_fact)
  then have "lgchoose n k = log 2 (fact n / (fact k * fact (n - k)))"
    by (simp add: lgchoose_def)
  also have "\<dots> = log 2 (fact n) - log 2 (fact k * fact (n - k))"
    by (rule log_divide_pos) simp_all
  also have "log 2 (fact k * fact (n - k) :: real) = log 2 (fact k) + log 2 (fact (n - k))"
    by (rule log_mult_pos) simp_all
  finally show ?thesis by (simp add: lgfact_def)
qed

lemma Max_insert_max:
  fixes b x :: nat
  assumes "finite A"
  shows "Max (insert (max b x) A) = Max (insert b (insert x A))"
proof (cases "A = {}")
  case True
  then show ?thesis by (simp add: max.commute)
next
  case False
  then show ?thesis using assms by (simp add: max.assoc)
qed

lemma MDL_loop_ok:
  assumes wf: "wf_graph g" and un: "\<forall>v \<in> set (vertices g). \<not> vused v"
    and V: "V = numVertices g"
  shows "\<lbrakk>set vs \<subseteq> {..<V}; mgraph s = g; cache_ok (mparams s)\<rbrakk> \<Longrightarrow>
    rowBits (MDL_loop V vs s) =
      rowBits s - (\<Sum>v\<leftarrow>vs. lgfact (k_of g v) + lgfact (V - k_of g v)) \<and>
    B_max (MDL_loop V vs s) = Max (insert (B_max s) (k_of g ` set vs)) \<and>
    K_sum (MDL_loop V vs s) = K_sum s + (\<Sum>v\<leftarrow>vs. k_of g v) \<and>
    M_max (MDL_loop V vs s) = Max (insert (M_max s) (MaxEdgesToSingleVertex g ` set vs)) \<and>
    mgraph (MDL_loop V vs s) = g \<and>
    cache_ok (mparams (MDL_loop V vs s)) \<and>
    same_but_cache (mparams s) (mparams (MDL_loop V vs s))"
proof (induction vs arbitrary: s)
  case Nil
  then show ?case by simp
next
  case (Cons v1 vs)
  let ?k = "k_of g v1"
  let ?pb = "snd (Log2Factorial ?k (mparams s))"
  let ?pc = "snd (Log2Factorial (usub V ?k) ?pb)"
  let ?tm = "MaxEdgesToSingleVertex g v1"
  let ?sa = "\<lparr>rowBits = rowBits s - (lgfact ?k + lgfact (V - ?k)),
            B_max = max (B_max s) ?k, K_sum = K_sum s + ?k,
            M_max = max (M_max s) ?tm, mgraph = g, mparams = ?pc\<rparr>"
  have v1: "v1 < numVertices g" using Cons.prems(1) V by simp
  have nu: "NumUniqueEdges (mgraph s) v1 = (?k, g)"
    using NumUniqueEdges_ok [OF wf un v1] Cons.prems(2) by (simp add: k_of_def)
  have kle: "?k \<le> V" using card_neighbours_le [OF wf] V by (simp add: k_of_def)
  have f1: "fst (Log2Factorial ?k (mparams s)) = lgfact ?k"
    and c1: "cache_ok ?pb" and sb1: "same_but_cache (mparams s) ?pb"
    using Log2Factorial_ok [OF Cons.prems(3)] by simp_all
  have f2: "fst (Log2Factorial (usub V ?k) ?pb) = lgfact (V - ?k)"
    and c2: "cache_ok ?pc" and sb2: "same_but_cache ?pb ?pc"
    using Log2Factorial_ok [OF c1, of "usub V ?k"] kle by (simp_all add: usub_le)
  have step: "MDL_loop V (v1 # vs) s = MDL_loop V vs ?sa"
    using nu f1 f2 by (simp add: Let_def split_beta max_def)
  have sub: "set vs \<subseteq> {..<V}" using Cons.prems(1) by simp
  have ih: "rowBits (MDL_loop V vs ?sa) =
      rowBits ?sa - (\<Sum>v\<leftarrow>vs. lgfact (k_of g v) + lgfact (V - k_of g v)) \<and>
    B_max (MDL_loop V vs ?sa) = Max (insert (B_max ?sa) (k_of g ` set vs)) \<and>
    K_sum (MDL_loop V vs ?sa) = K_sum ?sa + (\<Sum>v\<leftarrow>vs. k_of g v) \<and>
    M_max (MDL_loop V vs ?sa) = Max (insert (M_max ?sa) (MaxEdgesToSingleVertex g ` set vs)) \<and>
    mgraph (MDL_loop V vs ?sa) = g \<and>
    cache_ok (mparams (MDL_loop V vs ?sa)) \<and>
    same_but_cache (mparams ?sa) (mparams (MDL_loop V vs ?sa))"
    by (rule Cons.IH [OF sub]) (simp_all add: c2)
  have sb: "same_but_cache (mparams s) (mparams (MDL_loop V vs ?sa))"
    using same_but_cache_trans [OF same_but_cache_trans [OF sb1 sb2]] ih by simp
  have B: "Max (insert (max (B_max s) ?k) (k_of g ` set vs)) =
           Max (insert (B_max s) (k_of g ` set (v1 # vs)))"
    using Max_insert_max [of "k_of g ` set vs" "B_max s" ?k] by simp
  have M: "Max (insert (max (M_max s) ?tm) (MaxEdgesToSingleVertex g ` set vs)) =
           Max (insert (M_max s) (MaxEdgesToSingleVertex g ` set (v1 # vs)))"
    using Max_insert_max [of "MaxEdgesToSingleVertex g ` set vs" "M_max s" ?tm] by simp
  show ?case unfolding step using ih sb B M by simp
qed

lemma sum_list_upt: "(\<Sum>v\<leftarrow>[0..<n]. f v) = (\<Sum>i<n. (f i :: 'a :: comm_monoid_add))"
  by (induction n) simp_all

theorem MDL_ok:
  assumes wf: "wf_graph g" and un: "\<forall>v \<in> set (vertices g). \<not> vused v"
    and c: "cache_ok p"
  shows "fst (MDL g L p) = MDL_bits g L"
    and "fst (snd (MDL g L p)) = g"
    and "cache_ok (snd (snd (MDL g L p)))"
    and "same_but_cache p (snd (snd (MDL g L p)))"
proof -
  let ?V = "numVertices g"
  let ?pa = "snd (Log2Factorial ?V p)"
  let ?ini = "\<lparr>rowBits = real ?V * lgfact ?V, B_max = 0, K_sum = 0, M_max = 0,
             mgraph = g, mparams = ?pa\<rparr>"
  let ?s = "MDL_loop ?V [0..<?V] ?ini"
  have f0: "fst (Log2Factorial ?V p) = lgfact ?V" and c0: "cache_ok ?pa"
    and sb0: "same_but_cache p ?pa"
    using Log2Factorial_ok [OF c] by simp_all
  have loop: "rowBits ?s =
      rowBits ?ini - (\<Sum>v\<leftarrow>[0..<?V]. lgfact (k_of g v) + lgfact (?V - k_of g v)) \<and>
    B_max ?s = Max (insert (B_max ?ini) (k_of g ` set [0..<?V])) \<and>
    K_sum ?s = K_sum ?ini + (\<Sum>v\<leftarrow>[0..<?V]. k_of g v) \<and>
    M_max ?s = Max (insert (M_max ?ini) (MaxEdgesToSingleVertex g ` set [0..<?V])) \<and>
    mgraph ?s = g \<and> cache_ok (mparams ?s) \<and> same_but_cache (mparams ?ini) (mparams ?s)"
    by (rule MDL_loop_ok [OF wf un refl]) (auto simp: c0)
  have unf: "MDL g L p =
     (Log2 ?V + real ?V * Log2 L + (rowBits ?s + real (?V + 1) * Log2 (B_max ?s + 1))
      + (real (numEdges g) * (1 + Log2 L) + real (K_sum ?s + 1) * Log2 (M_max ?s)),
      mgraph ?s, mparams ?s)"
    using f0 by (simp add: MDL_def Let_def split_beta)
  have kle: "\<And>i. k_of g i \<le> ?V" using card_neighbours_le [OF wf] by (simp add: k_of_def)
  have "(\<Sum>i<?V. lgfact (k_of g i) + lgfact (?V - k_of g i)) =
        (\<Sum>i<?V. lgfact ?V - lgchoose ?V (k_of g i))"
    by (rule sum.cong) (use lgchoose_fact [OF kle] in \<open>simp_all add: algebra_simps\<close>)
  also have "\<dots> = real ?V * lgfact ?V - (\<Sum>i<?V. lgchoose ?V (k_of g i))"
    by (simp add: sum_subtractf)
  finally have rows: "rowBits ?s = (\<Sum>i<?V. lgchoose ?V (k_of g i))"
    using loop by (simp add: sum_list_upt)
  have B: "B_max ?s = B_of g" using loop by (simp add: B_of_def atLeast_upt)
  have M: "M_max ?s = M_scan g" using loop by (simp add: M_scan_def atLeast_upt)
  have K: "K_sum ?s = K_of g" using loop by (simp add: K_of_def sum_list_upt)
  show "fst (MDL g L p) = MDL_bits g L"
    unfolding unf by (simp add: rows B M K MDL_bits_def)
  show "fst (snd (MDL g L p)) = g" unfolding unf using loop by simp
  show "cache_ok (snd (snd (MDL g L p)))" unfolding unf using loop by simp
  show "same_but_cache p (snd (snd (MDL g L p)))"
    unfolding unf using loop same_but_cache_trans [OF sb0] by simp
qed

lemma markVertices_ok:
  "\<lbrakk>vmarks g S; \<forall>v \<in> set vs. v < length (vertices g); finite S\<rbrakk> \<Longrightarrow>
   fst (CompressGraph_markVertices vs no g k) = k + card (set vs - S) \<and>
   vmarks (snd (CompressGraph_markVertices vs no g k)) (S \<union> set vs) \<and>
   length (vertices (snd (CompressGraph_markVertices vs no g k))) = length (vertices g) \<and>
   numVertices (snd (CompressGraph_markVertices vs no g k)) = numVertices g \<and>
   numEdges (snd (CompressGraph_markVertices vs no g k)) = numEdges g \<and>
   edges (snd (CompressGraph_markVertices vs no g k)) = edges g"
proof (induction vs arbitrary: g S k)
  case Nil
  then show ?case by simp
next
  case (Cons v vs)
  have v: "v < length (vertices g)" using Cons.prems(2) by simp
  have used: "vused (vertices g ! v) = (v \<in> S)" using Cons.prems(1) v by (simp add: vmarks_def)
  show ?case
  proof (cases "v \<in> S")
    case True
    have step: "CompressGraph_markVertices (v # vs) no g k = CompressGraph_markVertices vs no g k"
      using True used by simp
    have ih: "fst (CompressGraph_markVertices vs no g k) = k + card (set vs - S) \<and>
       vmarks (snd (CompressGraph_markVertices vs no g k)) (S \<union> set vs) \<and>
       length (vertices (snd (CompressGraph_markVertices vs no g k))) = length (vertices g) \<and>
       numVertices (snd (CompressGraph_markVertices vs no g k)) = numVertices g \<and>
       numEdges (snd (CompressGraph_markVertices vs no g k)) = numEdges g \<and>
       edges (snd (CompressGraph_markVertices vs no g k)) = edges g"
      using Cons.IH [OF Cons.prems(1) _ Cons.prems(3)] Cons.prems(2) by simp
    have a: "set (v # vs) - S = set vs - S" using True by auto
    have b: "S \<union> set (v # vs) = S \<union> set vs" using True by auto
    show ?thesis unfolding step a b using ih .
  next
    case False
    let ?g = "g\<lparr>vertices := (vertices g)[v := (vertices g ! v)\<lparr>vused := True, vmap := no - 1\<rparr>]\<rparr>"
    have step: "CompressGraph_markVertices (v # vs) no g k =
                CompressGraph_markVertices vs no ?g (k + 1)"
      using False used by simp
    have m: "vmarks ?g (insert v S)"
      using Cons.prems(1) v by (auto simp: vmarks_def nth_list_update)
    have r: "\<forall>x \<in> set vs. x < length (vertices ?g)" using Cons.prems(2) by simp
    have ih: "fst (CompressGraph_markVertices vs no ?g (k + 1)) = k + 1 + card (set vs - insert v S) \<and>
       vmarks (snd (CompressGraph_markVertices vs no ?g (k + 1))) (insert v S \<union> set vs) \<and>
       length (vertices (snd (CompressGraph_markVertices vs no ?g (k + 1)))) = length (vertices ?g) \<and>
       numVertices (snd (CompressGraph_markVertices vs no ?g (k + 1))) = numVertices ?g \<and>
       numEdges (snd (CompressGraph_markVertices vs no ?g (k + 1))) = numEdges ?g \<and>
       edges (snd (CompressGraph_markVertices vs no ?g (k + 1))) = edges ?g"
      using Cons.IH [OF m r] Cons.prems(3) by simp
    have a: "set (v # vs) - S = insert v (set vs - insert v S)" using False by auto
    have c: "card (set (v # vs) - S) = 1 + card (set vs - insert v S)"
      unfolding a by simp
    have b: "S \<union> set (v # vs) = insert v S \<union> set vs" by auto
    show ?thesis unfolding step c b using ih by simp
  qed
qed

lemma markEdges_frame:
  "vertices (snd (CompressGraph_markEdges es g k)) = vertices g \<and>
   numVertices (snd (CompressGraph_markEdges es g k)) = numVertices g \<and>
   numEdges (snd (CompressGraph_markEdges es g k)) = numEdges g"
  by (induction es arbitrary: g k) (simp_all add: set_eused_def)

lemma inst_vset_Cons: "inst_vset (inst # il) = set (inst_vertices inst) \<union> inst_vset il"
  by (simp add: inst_vset_def)

lemma finite_inst_vset [simp]: "finite (inst_vset il)"
  by (simp add: inst_vset_def)

lemma count_ok:
  "\<lbrakk>vmarks g S; \<forall>v \<in> inst_vset il. v < length (vertices g); finite S\<rbrakk> \<Longrightarrow>
   fst (CompressGraph_count il no g nIV nIE) = no + length il \<and>
   fst (snd (CompressGraph_count il no g nIV nIE)) = nIV + card (inst_vset il - S) \<and>
   vmarks (snd (snd (snd (CompressGraph_count il no g nIV nIE)))) (S \<union> inst_vset il) \<and>
   length (vertices (snd (snd (snd (CompressGraph_count il no g nIV nIE))))) = length (vertices g) \<and>
   numVertices (snd (snd (snd (CompressGraph_count il no g nIV nIE)))) = numVertices g \<and>
   numEdges (snd (snd (snd (CompressGraph_count il no g nIV nIE)))) = numEdges g"
proof (induction il arbitrary: g S no nIV nIE)
  case Nil
  then show ?case by (simp add: inst_vset_def)
next
  case (Cons inst il)
  let ?vs = "inst_vertices inst"
  let ?mv = "CompressGraph_markVertices ?vs no g nIV"
  let ?me = "CompressGraph_markEdges (inst_edges inst) (snd ?mv) nIE"
  have r: "\<forall>v \<in> set ?vs. v < length (vertices g)"
    using Cons.prems(2) by (simp add: inst_vset_Cons)
  have mv: "fst ?mv = nIV + card (set ?vs - S)" "vmarks (snd ?mv) (S \<union> set ?vs)"
    "length (vertices (snd ?mv)) = length (vertices g)" "numVertices (snd ?mv) = numVertices g"
    "numEdges (snd ?mv) = numEdges g"
    using markVertices_ok [OF Cons.prems(1) r Cons.prems(3), of no nIV] by simp_all
  have me: "vertices (snd ?me) = vertices (snd ?mv)" "numVertices (snd ?me) = numVertices (snd ?mv)"
    "numEdges (snd ?me) = numEdges (snd ?mv)"
    using markEdges_frame [of "inst_edges inst" "snd ?mv" nIE] by simp_all
  have m2: "vmarks (snd ?me) (S \<union> set ?vs)" using mv(2) me(1) by (simp add: vmarks_def)
  have r2: "\<forall>v \<in> inst_vset il. v < length (vertices (snd ?me))"
    using Cons.prems(2) me(1) mv(3) by (simp add: inst_vset_Cons)
  have f2: "finite (S \<union> set ?vs)" using Cons.prems(3) by simp
  have step: "CompressGraph_count (inst # il) no g nIV nIE =
              CompressGraph_count il (no + 1) (snd ?me) (fst ?mv) (fst ?me)"
    by (simp add: split_beta)
  note ih = Cons.IH [OF m2 r2 f2, of "no + 1" "fst ?mv" "fst ?me"]
  have d: "(set ?vs - S) \<inter> (inst_vset il - (S \<union> set ?vs)) = {}" by auto
  have u: "inst_vset (inst # il) - S = (set ?vs - S) \<union> (inst_vset il - (S \<union> set ?vs))"
    by (auto simp: inst_vset_Cons)
  have c: "card (inst_vset (inst # il) - S) =
           card (set ?vs - S) + card (inst_vset il - (S \<union> set ?vs))"
    unfolding u by (rule card_Un_disjoint) (use Cons.prems(3) d in simp_all)
  have b: "S \<union> inst_vset (inst # il) = S \<union> set ?vs \<union> inst_vset il"
    by (auto simp: inst_vset_Cons)
  show ?case unfolding step c b using ih mv me by simp
qed

lemma add_vedge_frame [simp]:
  "numVertices (add_vedge g v e) = numVertices g"
  "numEdges (add_vedge g v e) = numEdges g"
  "edges (add_vedge g v e) = edges g"
  "length (vertices (add_vedge g v e)) = length (vertices g)"
  by (simp_all add: add_vedge_def)

lemma AddEdgeToVertices_frame [simp]:
  "numVertices (AddEdgeToVertices g e) = numVertices g"
  "numEdges (AddEdgeToVertices g e) = numEdges g"
  "edges (AddEdgeToVertices g e) = edges g"
  "length (vertices (AddEdgeToVertices g e)) = length (vertices g)"
  by (simp_all add: AddEdgeToVertices_def Let_def)

lemma subVertices_frame:
  "numVertices (fst (CompressGraph_subVertices vs l cg vi)) = numVertices cg \<and>
   length (vertices (fst (CompressGraph_subVertices vs l cg vi))) = length (vertices cg) \<and>
   snd (CompressGraph_subVertices vs l cg vi) = vi + length vs"
  by (induction vs arbitrary: cg vi) simp_all

lemma CopyUnmarkedGraph_vertices_frame:
  "numVertices (fst (snd (CopyUnmarkedGraph_vertices vs g1 g2 vi))) = numVertices g2 \<and>
   length (vertices (fst (snd (CopyUnmarkedGraph_vertices vs g1 g2 vi)))) = length (vertices g2) \<and>
   numEdges (fst (CopyUnmarkedGraph_vertices vs g1 g2 vi)) = numEdges g1"
  by (induction vs arbitrary: g1 g2 vi) simp_all

lemma CopyUnmarkedGraph_edges_frame:
  "numVertices (CopyUnmarkedGraph_edges es g1 g2 ei) = numVertices g2 \<and>
   length (vertices (CopyUnmarkedGraph_edges es g1 g2 ei)) = length (vertices g2)"
  by (induction es arbitrary: g2 ei) (simp_all add: Let_def)

lemma CopyUnmarkedGraph_frame:
  "numVertices (snd (CopyUnmarkedGraph g1 g2 vi)) = numVertices g2 \<and>
   length (vertices (snd (CopyUnmarkedGraph g1 g2 vi))) = length (vertices g2)"
  using CopyUnmarkedGraph_vertices_frame [of "[0..<numVertices g1]" g1 g2 vi]
  by (simp add: CopyUnmarkedGraph_def split_beta CopyUnmarkedGraph_edges_frame)

lemma AddOverlapEdges_store_frame:
  "numVertices (AddOverlapEdges_store oes cg ei) = numVertices cg \<and>
   length (vertices (AddOverlapEdges_store oes cg ei)) = length (vertices cg)"
  by (induction oes arbitrary: cg ei) (simp_all add: Let_def)

lemma AddOverlapEdges_frame:
  "numVertices (fst (AddOverlapEdges cg g il l sv se)) = numVertices cg \<and>
   length (vertices (fst (AddOverlapEdges cg g il l sv se))) = length (vertices cg)"
  by (simp add: AddOverlapEdges_def split_beta Let_def AddOverlapEdges_store_frame)

lemma vmarks_unmarked: "\<forall>v \<in> set (vertices g). \<not> vused v \<Longrightarrow> vmarks g {}"
  by (simp add: vmarks_def)

lemma length_inst_vertices [simp]: "length (inst_vertices inst) = inumVertices inst"
  by (simp add: inst_vertices_def)

lemma CompressGraph_nv:
  assumes un: "\<forall>v \<in> set (vertices g). \<not> vused v"
    and rng: "\<forall>v \<in> inst_vset il. v < length (vertices g)"
    and len: "length (vertices g) = numVertices g"
  shows "numVertices (fst (CompressGraph g il p)) = numVertices g - card (inst_vset il) + length il"
    and "length (vertices (fst (CompressGraph g il p))) = numVertices (fst (CompressGraph g il p))"
    and "card (inst_vset il) \<le> numVertices g"
proof -
  let ?c = "CompressGraph_count il 1 g 0 0"
  let ?no = "fst ?c" let ?nIV = "fst (snd ?c)" let ?nIE = "fst (snd (snd ?c))"
  let ?g1 = "snd (snd (snd ?c))"
  have c: "?no = 1 + length il" "?nIV = card (inst_vset il)" "numVertices ?g1 = numVertices g"
    using count_ok [OF vmarks_unmarked [OF un] rng, of 1 0 0] by simp_all
  have "inst_vset il \<subseteq> {..<numVertices g}" using rng len by auto
  then have "card (inst_vset il) \<le> card {..<numVertices g}" by (intro card_mono) simp_all
  then show le: "card (inst_vset il) \<le> numVertices g" by simp
  let ?nv = "usub (numVertices ?g1) ?nIV + (?no - 1)"
  let ?ne = "usub (numEdges ?g1) ?nIE"
  let ?cg0 = "AllocateGraph ?nv ?ne"
  let ?sv = "CompressGraph_subVertices [0..<?no - 1] (length (labelList p)) ?cg0 0"
  let ?cu = "CopyUnmarkedGraph ?g1 (fst ?sv) (snd ?sv)"
  let ?ao = "AddOverlapEdges (snd ?cu) (fst ?cu) il (length (labelList p) + 1) 0 0"
  have nv: "?nv = numVertices g - card (inst_vset il) + length il"
    using c le by (simp add: usub_def)
  have a0: "numVertices ?cg0 = ?nv" "length (vertices ?cg0) = ?nv"
    by (simp_all add: AllocateGraph_def)
  have a1: "numVertices (fst ?sv) = ?nv" "length (vertices (fst ?sv)) = ?nv"
    using subVertices_frame [of "[0..<?no - 1]" "length (labelList p)" ?cg0 0] a0 by simp_all
  have a2: "numVertices (snd ?cu) = ?nv" "length (vertices (snd ?cu)) = ?nv"
    using CopyUnmarkedGraph_frame [of ?g1 "fst ?sv" "snd ?sv"] a1 by simp_all
  have a3: "numVertices (fst ?ao) = ?nv" "length (vertices (fst ?ao)) = ?nv"
    using AddOverlapEdges_frame [of "snd ?cu" "fst ?cu" il "length (labelList p) + 1" 0 0] a2
    by simp_all
  have unf: "fst (CompressGraph g il p) = (if allowInstanceOverlap p then fst ?ao else snd ?cu)"
    by (simp add: CompressGraph_def Let_def split_beta)
  show "numVertices (fst (CompressGraph g il p)) = numVertices g - card (inst_vset il) + length il"
    unfolding unf using a2(1) a3(1) nv by simp
  show "length (vertices (fst (CompressGraph g il p))) = numVertices (fst (CompressGraph g il p))"
    unfolding unf using a2 a3 by simp
qed

lemma graph_one_vertex_built:
  "graph_one_vertex = AddVertex (AllocateGraph 0 0) 0"
  by (simp add: graph_one_vertex_def AddVertex_def AllocateGraph_def fresh_vertex_def)

lemma graph_one_edge_built:
  "graph_one_edge = AddEdge (AddVertex (AddVertex (AllocateGraph 0 0) 0) 0) 0 1 False 0 False"
  by (simp add: graph_one_edge_def AddVertex_def AllocateGraph_def fresh_vertex_def AddEdge_def
      AddEdgeToVertices_def add_vedge_def new_edge_def Let_def)

lemma cache_ok_example: "cache_ok example_parameters"
  by (simp add: cache_ok_def example_parameters_def lgfact_def less_Suc_eq numeral_2_eq_2)

lemma inst_vertices_make [simp]: "inst_vertices (make_instance vs es) = vs"
  by (simp add: inst_vertices_def make_instance_def map_nth)

lemma inst_edges_make [simp]: "inst_edges (make_instance vs es) = es"
  by (simp add: inst_edges_def make_instance_def map_nth)

lemma inumVertices_make [simp]: "inumVertices (make_instance vs es) = length vs"
  by (simp add: make_instance_def)

text \<open>
  C4. On a graph with clear vertex marks and instances whose vertices are vertices of
  the graph, the graph \<open>CompressGraph\<close> returns has \<open>|V(g)| - u + |insts|\<close> vertices,
  where \<open>u\<close> is the number of distinct graph vertices covered by the instances (a vertex
  shared by several instances counts once); when no vertex occurs twice in the
  instances, \<open>u\<close> is the sum of their sizes. The vertex array has that many cells.
\<close>

theorem CompressGraph_vertex_count:
  assumes "vertices_unmarked g" and "instances_in_range g il"
    and "length (vertices g) = numVertices g"
  shows "numVertices (fst (CompressGraph g il p)) =
           numVertices g - card (inst_vset il) + length il \<and>
         card (inst_vset il) \<le> numVertices g \<and>
         (distinct (concat (map inst_vertices il)) \<longrightarrow>
            numVertices (fst (CompressGraph g il p)) =
              numVertices g - (\<Sum>inst\<leftarrow>il. inumVertices inst) + length il \<and>
            (\<Sum>inst\<leftarrow>il. inumVertices inst) \<le> numVertices g) \<and>
         length (vertices (fst (CompressGraph g il p))) =
           numVertices (fst (CompressGraph g il p))"
proof -
  have un: "\<forall>v \<in> set (vertices g). \<not> vused v"
    using assms(1) by (simp add: vertices_unmarked_def)
  have rng: "\<forall>v \<in> inst_vset il. v < length (vertices g)"
    using assms(2) by (auto simp: instances_in_range_def inst_vset_def)
  note nv = CompressGraph_nv [OF un rng assms(3)]
  have cc: "set (concat (map inst_vertices il)) = inst_vset il"
    by (auto simp: inst_vset_def)
  have sum: "(\<Sum>inst\<leftarrow>il. inumVertices inst) = length (concat (map inst_vertices il))"
    by (simp add: length_concat comp_def)
  have eq: "card (inst_vset il) = (\<Sum>inst\<leftarrow>il. inumVertices inst)"
    if "distinct (concat (map inst_vertices il))"
    using distinct_card [OF that] cc sum by simp
  have d: "numVertices (fst (CompressGraph g il p)) =
             numVertices g - (\<Sum>inst\<leftarrow>il. inumVertices inst) + length il \<and>
           (\<Sum>inst\<leftarrow>il. inumVertices inst) \<le> numVertices g"
    if "distinct (concat (map inst_vertices il))"
    using eq [OF that] nv(1) [of p] nv(3) by simp
  show ?thesis using nv(1) [of p] nv(2) [of p] nv(3) d by blast
qed

theorem CompressGraph_vertex_count_witness:
  "vertices_unmarked graph_two_paths \<and>
   instances_in_range graph_two_paths instances_two_paths \<and>
   length (vertices graph_two_paths) = numVertices graph_two_paths \<and>
   distinct (concat (map inst_vertices instances_two_paths)) \<and>
   numVertices (fst (CompressGraph graph_two_paths instances_two_paths example_parameters)) = 2"
proof -
  have un: "vertices_unmarked graph_two_paths"
    by (simp add: vertices_unmarked_def graph_two_paths_def fresh_vertex_def)
  have rng: "instances_in_range graph_two_paths instances_two_paths"
    by (simp add: instances_in_range_def instances_two_paths_def graph_two_paths_def)
  have len: "length (vertices graph_two_paths) = numVertices graph_two_paths"
    by (simp add: graph_two_paths_def)
  have dis: "distinct (concat (map inst_vertices instances_two_paths))"
    by (simp add: instances_two_paths_def)
  have s: "(\<Sum>inst\<leftarrow>instances_two_paths. inumVertices inst) = 6"
    "length instances_two_paths = 2" "numVertices graph_two_paths = 6"
    by (simp_all add: instances_two_paths_def graph_two_paths_def)
  have "numVertices (fst (CompressGraph graph_two_paths instances_two_paths example_parameters)) =
        numVertices graph_two_paths - (\<Sum>inst\<leftarrow>instances_two_paths. inumVertices inst)
          + length instances_two_paths"
    using CompressGraph_vertex_count [OF un rng len, of example_parameters] dis by blast
  then show ?thesis using un rng len dis unfolding s by simp
qed

lemma graph_parallel_built:
  "graph_parallel =
     AddEdge (AddEdge (AddEdge (AddVertex (AddVertex (AddVertex (AllocateGraph 0 0) 0) 0) 0)
       0 1 False 0 False) 0 1 False 0 False) 1 2 False 0 False"
  by (simp add: graph_parallel_def AddVertex_def AllocateGraph_def fresh_vertex_def AddEdge_def
      AddEdgeToVertices_def add_vedge_def new_edge_def Let_def)

lemmas eval_graph_ops =
  fresh_vertex_def new_edge_def set_vused_def set_eused_def uadd_def usub_def
  GraphSize_def NumOverlapEdges_def AddOverlapEdge_def AddDuplicateEdges_def
  MarkInstanceVertices_def MarkInstanceEdges_def VERTEX_UNMAPPED_def MAX_UNSIGNED_LONG_def
  CompressGraph_def AddOverlapEdges_def CopyUnmarkedGraph_def AllocateGraph_def
  realloc_def StoreEdge_def AddEdgeToVertices_def add_vedge_def upt_conv_Cons Let_def

text \<open>
  C3 (the code departs from the claim). With overlap allowed, \<open>SizeOfCompressedGraph\<close>
  counts the duplicate edges through the \<open>map\<close> fields, which only \<open>CompressGraph\<close>
  sets: on the graph above it returns 5, and the graph \<open>CompressGraph\<close> builds has
  size 6.
\<close>

theorem SizeOfCompressedGraph_overlap_mismatch:
  "fst (SizeOfCompressedGraph graph_parallel (Some instances_sharing) overlap_parameters) = 5 \<and>
   GraphSize (fst (CompressGraph graph_parallel instances_sharing overlap_parameters)) = 6"
proof
  show "fst (SizeOfCompressedGraph graph_parallel (Some instances_sharing) overlap_parameters) = 5"
    by (simp add: eval_graph_ops graph_parallel_def instances_sharing_def overlap_parameters_def
        example_parameters_def SizeOfCompressedGraph_def split del: if_split)
  show "GraphSize (fst (CompressGraph graph_parallel instances_sharing overlap_parameters)) = 6"
    by (simp add: eval_graph_ops graph_parallel_def instances_sharing_def overlap_parameters_def
        example_parameters_def split del: if_split)
qed

text \<open>
  On the inputs of \<open>egs_ok\<close> the count of \<open>ExamplesCovered\<close> is the number of examples
  whose range holds the first vertex of an instance.
\<close>

lemma found_iff:
  "ExamplesCovered_found il s e \<longleftrightarrow>
     (\<exists>inst \<in> set il. s \<le> ivertices inst ! 0 \<and> ivertices inst ! 0 \<le> e)"
  by (induction il) (auto simp: Let_def)

lemma usub_one: "0 < x \<Longrightarrow> usub x (Suc 0) = x - Suc 0"
  by (simp add: usub_def)

lemma found_covered:
  assumes "egs_ok numEgs egs (numVertices g)" "i < numEgs"
  shows "ExamplesCovered_found il (egs ! i)
           (if i < usub numEgs 1 then usub (egs ! (i + 1)) 1 else usub (numVertices g) 1)
         \<longleftrightarrow> example_covered il numEgs egs (numVertices g) i"
proof -
  have n: "usub numEgs (Suc 0) = numEgs - Suc 0" using assms(2) by (simp add: usub_def)
  have V: "0 < numVertices g" using assms by (auto simp: egs_ok_def)
  show ?thesis
  proof (cases "Suc i < numEgs")
    case True
    then have p: "0 < egs ! Suc i" using assms(1) by (simp add: egs_ok_def)
    have "i < numEgs - 1" using True by simp
    then show ?thesis using True p
      by (auto simp: found_iff example_covered_def n usub_one)
  next
    case False
    then have "\<not> i < numEgs - 1" by simp
    then show ?thesis using False V
      by (auto simp: found_iff example_covered_def n usub_one)
  qed
qed

lemma loop_count:
  assumes "egs_ok numEgs egs (numVertices g)"
  shows "\<lbrakk>distinct xs; \<forall>i \<in> set xs. i < numEgs\<rbrakk> \<Longrightarrow>
    ExamplesCovered_loop xs il g numEgs egs 0 n =
      n + card {i \<in> set xs. example_covered il numEgs egs (numVertices g) i}"
proof (induction xs arbitrary: n)
  case Nil
  then show ?case by simp
next
  case (Cons i xs)
  have i: "i < numEgs" using Cons.prems(2) by simp
  note fc = found_covered [OF assms i, of il]
  have ih: "\<And>m. ExamplesCovered_loop xs il g numEgs egs 0 m =
      m + card {j \<in> set xs. example_covered il numEgs egs (numVertices g) j}"
    using Cons.IH Cons.prems by simp
  show ?case
  proof (cases "example_covered il numEgs egs (numVertices g) i")
    case True
    have s: "{j \<in> set (i # xs). example_covered il numEgs egs (numVertices g) j} =
             insert i {j \<in> set xs. example_covered il numEgs egs (numVertices g) j}"
      using True by auto
    have ni: "i \<notin> {j \<in> set xs. example_covered il numEgs egs (numVertices g) j}"
      using Cons.prems(1) by simp
    have step: "ExamplesCovered_loop (i # xs) il g numEgs egs 0 n =
                ExamplesCovered_loop xs il g numEgs egs 0 (n + 1)"
      using True fc by (simp add: Let_def)
    show ?thesis unfolding step s using ih [of "n + 1"] ni by simp
  next
    case False
    have s: "{j \<in> set (i # xs). example_covered il numEgs egs (numVertices g) j} =
             {j \<in> set xs. example_covered il numEgs egs (numVertices g) j}"
      using False by auto
    have step: "ExamplesCovered_loop (i # xs) il g numEgs egs 0 n =
                ExamplesCovered_loop xs il g numEgs egs 0 n"
      using False fc by (simp add: Let_def)
    show ?thesis unfolding step s using ih [of n] .
  qed
qed

lemma ExamplesCovered_count:
  assumes "egs_ok numEgs egs (numVertices g)"
  shows "ExamplesCovered ilo g numEgs egs 0 = examples_covered_count ilo numEgs egs (numVertices g)"
proof (cases ilo)
  case None
  then show ?thesis by (simp add: ExamplesCovered_def examples_covered_count_def)
next
  case (Some il)
  have "{i \<in> set [0..<numEgs]. example_covered il numEgs egs (numVertices g) i} =
        {i. i < numEgs \<and> example_covered il numEgs egs (numVertices g) i}" by auto
  then show ?thesis
    using loop_count [OF assms, of "[0..<numEgs]" il 0] Some
    by (simp add: ExamplesCovered_def examples_covered_count_def)
qed

lemma examples_covered_count_le: "examples_covered_count ilo numEgs egs V \<le> numEgs"
proof (cases ilo)
  case None
  then show ?thesis by (simp add: examples_covered_count_def)
next
  case (Some il)
  have "card {i. i < numEgs \<and> example_covered il numEgs egs V i} \<le> card {..<numEgs}"
    by (rule card_mono) auto
  then show ?thesis using Some by (simp add: examples_covered_count_def)
qed

lemma same_but_vused_refl [simp]: "same_but_vused g g"
  by (simp add: same_but_vused_def)

lemma same_but_vused_trans:
  "same_but_vused g g' \<Longrightarrow> same_but_vused g' g'' \<Longrightarrow> same_but_vused g g''"
  by (simp add: same_but_vused_def)

lemma same_but_vused_set: "same_but_vused g (set_vused g v b)"
  by (cases "v < length (vertices g)")
     (simp_all add: same_but_vused_def set_vused_def nth_list_update)

lemma count_frame:
  "same_but_vused g (snd (NumUniqueEdges_count v1 es g n))"
proof (induction es arbitrary: g n)
  case Nil
  then show ?case by simp
next
  case (Cons e es)
  let ?v2 = "otherVertex (edges g ! e) v1"
  show ?case
  proof (cases "countsFrom (edges g ! e) v1 \<and> \<not> vused (vertices g ! ?v2)")
    case True
    have "same_but_vused g (snd (NumUniqueEdges_count v1 es (set_vused g ?v2 True) (n + 1)))"
      by (rule same_but_vused_trans [OF same_but_vused_set Cons.IH])
    then show ?thesis using True by (simp add: Let_def)
  next
    case False
    then show ?thesis using Cons.IH [of g n] by (auto simp: Let_def)
  qed
qed

lemma reset_frame: "same_but_vused g (NumUniqueEdges_reset es g)"
proof (induction es arbitrary: g)
  case Nil
  then show ?case by simp
next
  case (Cons e es)
  let ?g = "set_vused (set_vused g (vertex1 (edges g ! e)) False) (vertex2 (edges g ! e)) False"
  have "same_but_vused g ?g"
    using same_but_vused_trans [OF same_but_vused_set same_but_vused_set] .
  then have "same_but_vused g (NumUniqueEdges_reset es ?g)"
    by (rule same_but_vused_trans [OF _ Cons.IH])
  then show ?case by (simp add: Let_def)
qed

lemma NumUniqueEdges_frame: "same_but_vused g (snd (NumUniqueEdges g v))"
  using same_but_vused_trans [OF count_frame reset_frame]
  by (simp add: NumUniqueEdges_def Let_def split_beta)

text \<open>
  Two runs of the loop of \<open>MDL\<close> from states that differ only in a (correct) cache
  compute the same numbers and the same graph.
\<close>

lemma MDL_loop_indep:
  "\<lbrakk>cache_ok (mparams s); cache_ok (mparams t); rowBits s = rowBits t; B_max s = B_max t;
    K_sum s = K_sum t; M_max s = M_max t; mgraph s = mgraph t;
    same_but_cache (mparams s) q; same_but_cache (mparams t) q\<rbrakk> \<Longrightarrow>
   rowBits (MDL_loop V vs s) = rowBits (MDL_loop V vs t) \<and>
   B_max (MDL_loop V vs s) = B_max (MDL_loop V vs t) \<and>
   K_sum (MDL_loop V vs s) = K_sum (MDL_loop V vs t) \<and>
   M_max (MDL_loop V vs s) = M_max (MDL_loop V vs t) \<and>
   mgraph (MDL_loop V vs s) = mgraph (MDL_loop V vs t) \<and>
   same_but_vused (mgraph s) (mgraph (MDL_loop V vs s)) \<and>
   cache_ok (mparams (MDL_loop V vs s)) \<and>
   same_but_cache (mparams (MDL_loop V vs s)) q"
proof (induction vs arbitrary: s t)
  case Nil
  then show ?case by simp
next
  case (Cons v1 vs)
  let ?ki = "fst (NumUniqueEdges (mgraph s) v1)"
  let ?g1 = "snd (NumUniqueEdges (mgraph s) v1)"
  let ?ps1 = "snd (Log2Factorial ?ki (mparams s))"
  let ?ps2 = "snd (Log2Factorial (usub V ?ki) ?ps1)"
  let ?pt1 = "snd (Log2Factorial ?ki (mparams t))"
  let ?pt2 = "snd (Log2Factorial (usub V ?ki) ?pt1)"
  let ?tm = "MaxEdgesToSingleVertex ?g1 v1"
  let ?sa = "\<lparr>rowBits = rowBits s - (lgfact ?ki + lgfact (usub V ?ki)),
            B_max = (if ?ki > B_max s then ?ki else B_max s), K_sum = K_sum s + ?ki,
            M_max = (if ?tm > M_max s then ?tm else M_max s), mgraph = ?g1, mparams = ?ps2\<rparr>"
  let ?ta = "\<lparr>rowBits = rowBits s - (lgfact ?ki + lgfact (usub V ?ki)),
            B_max = (if ?ki > B_max s then ?ki else B_max s), K_sum = K_sum s + ?ki,
            M_max = (if ?tm > M_max s then ?tm else M_max s), mgraph = ?g1, mparams = ?pt2\<rparr>"
  note s1 = Log2Factorial_ok [OF Cons.prems(1), of ?ki]
  note s2 = Log2Factorial_ok [OF s1(2), of "usub V ?ki"]
  note t1 = Log2Factorial_ok [OF Cons.prems(2), of ?ki]
  note t2 = Log2Factorial_ok [OF t1(2), of "usub V ?ki"]
  have steps: "MDL_loop V (v1 # vs) s = MDL_loop V vs ?sa"
    using s1(1) s2(1) by (simp add: Let_def split_beta)
  have stept: "MDL_loop V (v1 # vs) t = MDL_loop V vs ?ta"
    using t1(1) t2(1) Cons.prems(3-7) by (simp add: Let_def split_beta)
  have qs: "same_but_cache ?ps2 q"
    using s1(3) s2(3) Cons.prems(8) by (simp add: same_but_cache_def)
  have qt: "same_but_cache ?pt2 q"
    using t1(3) t2(3) Cons.prems(9) by (simp add: same_but_cache_def)
  have ih: "rowBits (MDL_loop V vs ?sa) = rowBits (MDL_loop V vs ?ta) \<and>
   B_max (MDL_loop V vs ?sa) = B_max (MDL_loop V vs ?ta) \<and>
   K_sum (MDL_loop V vs ?sa) = K_sum (MDL_loop V vs ?ta) \<and>
   M_max (MDL_loop V vs ?sa) = M_max (MDL_loop V vs ?ta) \<and>
   mgraph (MDL_loop V vs ?sa) = mgraph (MDL_loop V vs ?ta) \<and>
   same_but_vused (mgraph ?sa) (mgraph (MDL_loop V vs ?sa)) \<and>
   cache_ok (mparams (MDL_loop V vs ?sa)) \<and>
   same_but_cache (mparams (MDL_loop V vs ?sa)) q"
  proof (rule Cons.IH [of ?sa ?ta])
    show "cache_ok (mparams ?sa)" using s2(2) by simp
    show "cache_ok (mparams ?ta)" using t2(2) by simp
    show "same_but_cache (mparams ?sa) q" using qs by simp
    show "same_but_cache (mparams ?ta) q" using qt by simp
  qed simp_all
  have fr: "same_but_vused (mgraph s) ?g1" by (rule NumUniqueEdges_frame)
  have fr1: "same_but_vused ?g1 (mgraph (MDL_loop V vs ?sa))"
  proof -
    have "same_but_vused (mgraph ?sa) (mgraph (MDL_loop V vs ?sa))" using ih by blast
    moreover have "mgraph ?sa = ?g1" by simp
    ultimately show ?thesis by (simp only:)
  qed
  have fr2: "same_but_vused (mgraph s) (mgraph (MDL_loop V vs ?sa))"
    by (rule same_but_vused_trans [OF fr fr1])
  show ?case unfolding steps stept
    apply (intro conjI)
    using ih apply blast
    using ih apply blast
    using ih apply blast
    using ih apply blast
    using ih apply blast
    using fr2 apply blast
    using ih apply blast
    using ih apply blast
    done
qed

lemma same_but_cache_sym_q: "same_but_cache p q \<Longrightarrow> same_but_cache q p"
  by (simp add: same_but_cache_def)

lemma MDL_indep:
  assumes "cache_ok p" "cache_ok q" "same_but_cache p q"
  shows "fst (MDL g L p) = fst (MDL g L q)"
    and "fst (snd (MDL g L p)) = fst (snd (MDL g L q))"
    and "same_but_vused g (fst (snd (MDL g L p)))"
    and "cache_ok (snd (snd (MDL g L p)))"
    and "same_but_cache p (snd (snd (MDL g L p)))"
proof -
  let ?V = "numVertices g"
  let ?pa = "snd (Log2Factorial ?V p)"
  let ?qa = "snd (Log2Factorial ?V q)"
  let ?si = "\<lparr>rowBits = real ?V * lgfact ?V, B_max = 0, K_sum = 0, M_max = 0,
             mgraph = g, mparams = ?pa\<rparr>"
  let ?ti = "\<lparr>rowBits = real ?V * lgfact ?V, B_max = 0, K_sum = 0, M_max = 0,
             mgraph = g, mparams = ?qa\<rparr>"
  note a = Log2Factorial_ok [OF assms(1), of ?V]
  note b = Log2Factorial_ok [OF assms(2), of ?V]
  have pq: "same_but_cache ?pa p" using a(3) by (rule same_but_cache_sym_q)
  have qq: "same_but_cache ?qa p"
    using b(3) assms(3) by (simp add: same_but_cache_def)
  have c1: "cache_ok (mparams ?si)" using a(2) by simp
  have c2: "cache_ok (mparams ?ti)" using b(2) by simp
  have c3: "same_but_cache (mparams ?si) p" using pq by simp
  have c4: "same_but_cache (mparams ?ti) p" using qq by simp
  have loop: "rowBits (MDL_loop ?V [0..<?V] ?si) = rowBits (MDL_loop ?V [0..<?V] ?ti) \<and>
   B_max (MDL_loop ?V [0..<?V] ?si) = B_max (MDL_loop ?V [0..<?V] ?ti) \<and>
   K_sum (MDL_loop ?V [0..<?V] ?si) = K_sum (MDL_loop ?V [0..<?V] ?ti) \<and>
   M_max (MDL_loop ?V [0..<?V] ?si) = M_max (MDL_loop ?V [0..<?V] ?ti) \<and>
   mgraph (MDL_loop ?V [0..<?V] ?si) = mgraph (MDL_loop ?V [0..<?V] ?ti) \<and>
   same_but_vused g (mgraph (MDL_loop ?V [0..<?V] ?si)) \<and>
   cache_ok (mparams (MDL_loop ?V [0..<?V] ?si)) \<and>
   same_but_cache (mparams (MDL_loop ?V [0..<?V] ?si)) p"
    using MDL_loop_indep [where s = ?si and t = ?ti and q = p and V = ?V
        and vs = "[0..<?V]", OF c1 c2 _ _ _ _ _ c3 c4]
    by auto
  have up: "MDL g L p =
     (Log2 ?V + real ?V * Log2 L
        + (rowBits (MDL_loop ?V [0..<?V] ?si)
           + real (?V + 1) * Log2 (B_max (MDL_loop ?V [0..<?V] ?si) + 1))
        + (real (numEdges g) * (1 + Log2 L)
           + real (K_sum (MDL_loop ?V [0..<?V] ?si) + 1) * Log2 (M_max (MDL_loop ?V [0..<?V] ?si))),
      mgraph (MDL_loop ?V [0..<?V] ?si), mparams (MDL_loop ?V [0..<?V] ?si))"
    using a(1) by (simp add: MDL_def Let_def split_beta)
  have uq: "MDL g L q =
     (Log2 ?V + real ?V * Log2 L
        + (rowBits (MDL_loop ?V [0..<?V] ?ti)
           + real (?V + 1) * Log2 (B_max (MDL_loop ?V [0..<?V] ?ti) + 1))
        + (real (numEdges g) * (1 + Log2 L)
           + real (K_sum (MDL_loop ?V [0..<?V] ?ti) + 1) * Log2 (M_max (MDL_loop ?V [0..<?V] ?ti))),
      mgraph (MDL_loop ?V [0..<?V] ?ti), mparams (MDL_loop ?V [0..<?V] ?ti))"
    using b(1) by (simp add: MDL_def Let_def split_beta)
  have l1: "rowBits (MDL_loop ?V [0..<?V] ?si) = rowBits (MDL_loop ?V [0..<?V] ?ti)"
    and l2: "B_max (MDL_loop ?V [0..<?V] ?si) = B_max (MDL_loop ?V [0..<?V] ?ti)"
    and l3: "K_sum (MDL_loop ?V [0..<?V] ?si) = K_sum (MDL_loop ?V [0..<?V] ?ti)"
    and l4: "M_max (MDL_loop ?V [0..<?V] ?si) = M_max (MDL_loop ?V [0..<?V] ?ti)"
    and l5: "mgraph (MDL_loop ?V [0..<?V] ?si) = mgraph (MDL_loop ?V [0..<?V] ?ti)"
    and l6: "same_but_vused g (mgraph (MDL_loop ?V [0..<?V] ?si))"
    and l7: "cache_ok (mparams (MDL_loop ?V [0..<?V] ?si))"
    and l8: "same_but_cache (mparams (MDL_loop ?V [0..<?V] ?si)) p"
    using loop by blast+
  show "fst (MDL g L p) = fst (MDL g L q)"
    unfolding up uq fst_conv snd_conv l1 l2 l3 l4 by (rule refl)
  show "fst (snd (MDL g L p)) = fst (snd (MDL g L q))"
    unfolding up uq fst_conv snd_conv by (rule l5)
  show "same_but_vused g (fst (snd (MDL g L p)))"
    unfolding up fst_conv snd_conv by (rule l6)
  show "cache_ok (snd (snd (MDL g L p)))"
    unfolding up fst_conv snd_conv by (rule l7)
  show "same_but_cache p (snd (snd (MDL g L p)))"
    unfolding up fst_conv snd_conv by (rule same_but_cache_sym_q [OF l8])
qed

lemma ExternalEdgeBits_cong:
  "numVertices d' = numVertices d \<Longrightarrow> ExternalEdgeBits cg d' n = ExternalEdgeBits cg d n"
  by (simp add: ExternalEdgeBits_def)

lemma CompressGraph_cache:
  assumes "same_but_cache p q"
  shows "CompressGraph g il q = CompressGraph g il p"
proof -
  have l: "labelList q = labelList p"
    and o: "allowInstanceOverlap q = allowInstanceOverlap p"
    using assms by (simp_all add: same_but_cache_def)
  show ?thesis unfolding CompressGraph_def l o by (rule refl)
qed

text \<open>
  C7. On the input with an empty first example \<open>EvaluateSub\<close> counts both examples as
  covered and stores the value \<open>2 / 2 = 1\<close>, although only the second example has an
  instance with its first vertex in the example's range: the quotient of the claim is
  \<open>1 / 2\<close>. The end of the first example is \<open>egsVertexIndices[1] - 1\<close>, which wraps to
  \<open>ULONG_MAX\<close>.
\<close>

theorem EvaluateSub_set_cover_empty_example:
  "EvaluateSub empty_example_store vertex_substructure empty_example_parameters =
     Some (empty_example_store,
           vertex_substructure\<lparr>numExamples := 2, numNegExamples := 0, svalue := 1\<rparr>,
           empty_example_parameters) \<and>
   examples_covered_count (instances vertex_substructure)
     (numPosEgs empty_example_parameters) (posEgsVertexIndices empty_example_parameters)
     (numVertices graph_two_vertices) = 1"
proof
  show "EvaluateSub empty_example_store vertex_substructure empty_example_parameters =
     Some (empty_example_store,
           vertex_substructure\<lparr>numExamples := 2, numNegExamples := 0, svalue := 1\<rparr>,
           empty_example_parameters)"
    by (simp add: EvaluateSub_def EvaluateSub_switch_def EvaluateSub_SETCOVER_def fdiv_def
        empty_example_store_def vertex_substructure_def empty_example_parameters_def
        PosExamplesCovered_def ExamplesCovered_def graph_two_vertices_def make_instance_def
        EVAL_MDL_def EVAL_SIZE_def EVAL_SETCOVER_def usub_def upt_conv_Cons Let_def)
  have c0: "\<not> example_covered [make_instance [1] [], make_instance [0] []] 2 [0, 0] 2 0"
    and c1: "example_covered [make_instance [1] [], make_instance [0] []] 2 [0, 0] 2 (Suc 0)"
    by (simp_all add: example_covered_def make_instance_def)
  have "{i. i < 2 \<and> example_covered [make_instance [1] [], make_instance [0] []] 2 [0, 0] 2 i}
          = {Suc 0}"
    using c0 c1 by (auto simp: less_Suc_eq numeral_2_eq_2)
  then show "examples_covered_count (instances vertex_substructure)
     (numPosEgs empty_example_parameters) (posEgsVertexIndices empty_example_parameters)
     (numVertices graph_two_vertices) = 1"
    by (simp add: examples_covered_count_def vertex_substructure_def
        empty_example_parameters_def graph_two_vertices_def)
qed

lemma inner_count:
  "MaxEdges_inner g v1 edge1 v2 es n = n + length (filter (counted g v1 edge1 v2) es)"
  by (induction es arbitrary: n) (auto simp: Let_def counted_def)

lemma outer_step:
  "countsFrom (edges g ! e) v1 \<Longrightarrow>
   MaxEdges_outer g v1 (e # es) m =
     MaxEdges_outer g v1 es
       (max m (MaxEdges_inner g v1 (edges g ! e) (otherVertex (edges g ! e) v1) es (Suc 0)))"
  "\<not> countsFrom (edges g ! e) v1 \<Longrightarrow> MaxEdges_outer g v1 (e # es) m = MaxEdges_outer g v1 es m"
  by (simp_all add: Let_def max_def)

lemma outer_mono: "m \<le> MaxEdges_outer g v1 es m"
proof (induction es arbitrary: m)
  case Nil
  then show ?case by simp
next
  case (Cons e es)
  let ?n = "MaxEdges_inner g v1 (edges g ! e) (otherVertex (edges g ! e) v1) es (Suc 0)"
  show ?case
  proof (cases "countsFrom (edges g ! e) v1")
    case True
    have "m \<le> max m ?n" by simp
    also have "\<dots> \<le> MaxEdges_outer g v1 es (max m ?n)" by (rule Cons.IH)
    finally show ?thesis unfolding outer_step(1) [OF True] .
  next
    case False
    show ?thesis unfolding outer_step(2) [OF False] by (rule Cons.IH)
  qed
qed

lemma outer_ge:
  assumes "countsFrom (edges g ! e) v1"
  shows "MaxEdges_inner g v1 (edges g ! e) (otherVertex (edges g ! e) v1) rest (Suc 0)
           \<le> MaxEdges_outer g v1 (ys @ e # rest) m"
proof (induction ys arbitrary: m)
  case Nil
  let ?n = "MaxEdges_inner g v1 (edges g ! e) (otherVertex (edges g ! e) v1) rest (Suc 0)"
  have "?n \<le> max m ?n" by simp
  also have "\<dots> \<le> MaxEdges_outer g v1 rest (max m ?n)" by (rule outer_mono)
  finally show ?case unfolding append_Nil outer_step(1) [OF assms] .
next
  case (Cons y ys)
  show ?case
  proof (cases "countsFrom (edges g ! y) v1")
    case True
    show ?thesis unfolding append_Cons outer_step(1) [OF True] by (rule Cons.IH)
  next
    case False
    show ?thesis unfolding append_Cons outer_step(2) [OF False] by (rule Cons.IH)
  qed
qed

lemma outer_le:
  "\<lbrakk>m \<le> X;
    \<And>ys e rest. es = ys @ e # rest \<Longrightarrow> countsFrom (edges g ! e) v1 \<Longrightarrow>
       MaxEdges_inner g v1 (edges g ! e) (otherVertex (edges g ! e) v1) rest (Suc 0) \<le> X\<rbrakk> \<Longrightarrow>
   MaxEdges_outer g v1 es m \<le> X"
proof (induction es arbitrary: m)
  case Nil
  then show ?case by simp
next
  case (Cons e es)
  let ?n = "MaxEdges_inner g v1 (edges g ! e) (otherVertex (edges g ! e) v1) es (Suc 0)"
  have suf: "MaxEdges_inner g v1 (edges g ! e') (otherVertex (edges g ! e') v1) rest (Suc 0) \<le> X"
    if "es = ys @ e' # rest" and c: "countsFrom (edges g ! e') v1" for ys e' rest
  proof -
    have "e # es = (e # ys) @ e' # rest" using that(1) by simp
    then show ?thesis using Cons.prems(2) c by blast
  qed
  show ?case
  proof (cases "countsFrom (edges g ! e) v1")
    case True
    have "e # es = [] @ e # es" by simp
    then have n: "?n \<le> X" using Cons.prems(2) True by blast
    have mx: "max m ?n \<le> X" using n Cons.prems(1) by simp
    show ?thesis unfolding outer_step(1) [OF True] by (rule Cons.IH [OF mx suf])
  next
    case False
    show ?thesis unfolding outer_step(2) [OF False] by (rule Cons.IH [OF Cons.prems(1) suf])
  qed
qed

lemma counted_iff:
  assumes wf: "wf_graph g" and um: "unmixed g" and v1: "v1 < numVertices g"
    and e1: "e1 \<in> set (vedges (vertices g ! v1))" and c1: "countsFrom (edges g ! e1) v1"
    and e: "e \<in> set (vedges (vertices g ! v1))"
  shows "counted g v1 (edges g ! e1) (otherVertex (edges g ! e1) v1) e \<longleftrightarrow>
           e \<in> parallel_edges g v1 (otherVertex (edges g ! e1) v1)"
proof -
  have v1': "v1 < length (vertices g)" using v1 wf_graph_numV [OF wf] by simp
  have le: "e < numEdges g" and ie: "vertex1 (edges g ! e) = v1 \<or> vertex2 (edges g ! e) = v1"
    using wf_graph_adj [OF wf v1' e] wf_graph_numE [OF wf] by simp_all
  have le1: "e1 < numEdges g"
    and ie1: "vertex1 (edges g ! e1) = v1 \<or> vertex2 (edges g ! e1) = v1"
    using wf_graph_adj [OF wf v1' e1] wf_graph_numE [OF wf] by simp_all
  have u: "joins (edges g ! e) (vertex1 (edges g ! e1)) (vertex2 (edges g ! e1)) \<longrightarrow>
           directed (edges g ! e) = directed (edges g ! e1)"
    using um le le1 unfolding unmixed_def by blast
  show ?thesis
    using le ie ie1 u c1
    by (auto simp: counted_def parallel_edges_def otherVertex_def countsFrom_def joins_def
        split: if_splits)
qed

lemma first_in_parallel:
  assumes wf: "wf_graph g" and v1: "v1 < numVertices g"
    and e1: "e1 \<in> set (vedges (vertices g ! v1))" and c1: "countsFrom (edges g ! e1) v1"
  shows "e1 \<in> parallel_edges g v1 (otherVertex (edges g ! e1) v1)"
    and "otherVertex (edges g ! e1) v1 < numVertices g"
proof -
  have v1': "v1 < length (vertices g)" using v1 wf_graph_numV [OF wf] by simp
  have le1: "e1 < numEdges g" "e1 < length (edges g)"
    and ie1: "vertex1 (edges g ! e1) = v1 \<or> vertex2 (edges g ! e1) = v1"
    using wf_graph_adj [OF wf v1' e1] wf_graph_numE [OF wf] by simp_all
  show "e1 \<in> parallel_edges g v1 (otherVertex (edges g ! e1) v1)"
    using le1 ie1 c1
    by (auto simp: parallel_edges_def otherVertex_def countsFrom_def split: if_splits)
  show "otherVertex (edges g ! e1) v1 < numVertices g"
    using wf_graph_ends [OF wf le1(2)] wf_graph_numV [OF wf] by (simp add: otherVertex_def)
qed

lemma finite_parallel_edges [simp]: "finite (parallel_edges g u v)"
  by (simp add: parallel_edges_def)

lemma inner_card:
  assumes wf: "wf_graph g" and um: "unmixed g" and v1: "v1 < numVertices g"
    and sub: "set (e1 # rest) \<subseteq> set (vedges (vertices g ! v1))"
    and d: "distinct (e1 # rest)" and c1: "countsFrom (edges g ! e1) v1"
  shows "MaxEdges_inner g v1 (edges g ! e1) (otherVertex (edges g ! e1) v1) rest (Suc 0) =
           card (set (e1 # rest) \<inter> parallel_edges g v1 (otherVertex (edges g ! e1) v1))"
proof -
  let ?v2 = "otherVertex (edges g ! e1) v1"
  let ?P = "parallel_edges g v1 ?v2"
  have e1: "e1 \<in> set (vedges (vertices g ! v1))" using sub by simp
  have ci: "counted g v1 (edges g ! e1) ?v2 e \<longleftrightarrow> e \<in> ?P" if "e \<in> set rest" for e
    using counted_iff [OF wf um v1 e1 c1, of e] that sub by auto
  have "filter (counted g v1 (edges g ! e1) ?v2) rest = filter (\<lambda>e. e \<in> ?P) rest"
    by (rule filter_cong) (simp_all add: ci)
  then have "MaxEdges_inner g v1 (edges g ! e1) ?v2 rest (Suc 0) =
        Suc (length (filter (\<lambda>e. e \<in> ?P) rest))"
    by (simp add: inner_count)
  also have "length (filter (\<lambda>e. e \<in> ?P) rest) = card (set rest \<inter> ?P)"
    using d by (simp add: distinct_length_filter Int_commute Collect_mem_eq)
  also have "Suc (card (set rest \<inter> ?P)) = card (insert e1 (set rest \<inter> ?P))"
    using d by simp
  also have "insert e1 (set rest \<inter> ?P) = set (e1 # rest) \<inter> ?P"
    using first_in_parallel(1) [OF wf v1 e1 c1] by auto
  finally show ?thesis .
qed

lemma multiplicity_le_max:
  "u < numVertices g \<Longrightarrow> v < numVertices g \<Longrightarrow> multiplicity g u v \<le> max_multiplicity g"
  unfolding max_multiplicity_def by (rule Max_ge) auto

lemma MaxEdges_le:
  assumes wf: "wf_graph g" and um: "unmixed g" and ad: "adjacency_distinct g"
    and v1: "v1 < numVertices g"
  shows "MaxEdgesToSingleVertex g v1 \<le> max_multiplicity g"
  unfolding MaxEdgesToSingleVertex_def
proof (rule outer_le)
  show "0 \<le> max_multiplicity g" by simp
next
  fix ys e rest
  assume es: "vedges (vertices g ! v1) = ys @ e # rest" and c: "countsFrom (edges g ! e) v1"
  let ?v2 = "otherVertex (edges g ! e) v1"
  have d: "distinct (vedges (vertices g ! v1))" using ad v1 by (simp add: adjacency_distinct_def)
  have d': "distinct (e # rest)" using d es by simp
  have sub: "set (e # rest) \<subseteq> set (vedges (vertices g ! v1))" using es by auto
  have e: "e \<in> set (vedges (vertices g ! v1))" using es by simp
  have "MaxEdges_inner g v1 (edges g ! e) ?v2 rest (Suc 0) =
          card (set (e # rest) \<inter> parallel_edges g v1 ?v2)"
    by (rule inner_card [OF wf um v1 sub d' c])
  also have "\<dots> \<le> card (parallel_edges g v1 ?v2)"
    by (rule card_mono) auto
  also have "\<dots> \<le> max_multiplicity g"
    using multiplicity_le_max [OF v1 first_in_parallel(2) [OF wf v1 e c]]
    by (simp add: multiplicity_def)
  finally show "MaxEdges_inner g v1 (edges g ! e) ?v2 rest (Suc 0) \<le> max_multiplicity g" .
qed

lemma card_le_MaxEdges:
  assumes wf: "wf_graph g" and um: "unmixed g" and ad: "adjacency_distinct g"
    and v1: "v1 < numVertices g" and W: "W \<subseteq> parallel_edges g v1 v2"
    and c: "\<And>e. e \<in> W \<Longrightarrow> countsFrom (edges g ! e) v1 \<and> otherVertex (edges g ! e) v1 = v2"
  shows "card W \<le> MaxEdgesToSingleVertex g v1"
proof (cases "W = {}")
  case True
  then show ?thesis by simp
next
  case False
  let ?es = "vedges (vertices g ! v1)"
  have v1': "v1 < length (vertices g)" using v1 wf_graph_numV [OF wf] by simp
  have inc: "e \<in> set ?es" if "e \<in> W" for e
  proof -
    have "e \<in> parallel_edges g v1 v2" using that W by blast
    then have "e < length (edges g)"
      and "vertex1 (edges g ! e) = v1 \<or> vertex2 (edges g ! e) = v1"
      using wf_graph_numE [OF wf] by (auto simp: parallel_edges_def)
    then show ?thesis using wf_graph_adj_mem [OF wf v1'] by blast
  qed
  have "\<exists>x \<in> set ?es. x \<in> W" using False inc by blast
  then obtain ys e1 rest where es: "?es = ys @ e1 # rest" and e1: "e1 \<in> W"
    and ys: "\<forall>y \<in> set ys. y \<notin> W"
    using split_list_first_prop [of ?es "\<lambda>x. x \<in> W"] by blast
  have c1: "countsFrom (edges g ! e1) v1" and o1: "otherVertex (edges g ! e1) v1 = v2"
    using c [OF e1] by simp_all
  have d: "distinct ?es" using ad v1 by (simp add: adjacency_distinct_def)
  have d': "distinct (e1 # rest)" using d es by simp
  have sub: "set (e1 # rest) \<subseteq> set ?es" using es by auto
  have Wsub: "W \<subseteq> set (e1 # rest) \<inter> parallel_edges g v1 v2"
  proof
    fix e assume e: "e \<in> W"
    then have "e \<in> set ?es" by (rule inc)
    then have "e \<in> set (e1 # rest)" using es ys e by auto
    then show "e \<in> set (e1 # rest) \<inter> parallel_edges g v1 v2" using W e by blast
  qed
  have "card W \<le> card (set (e1 # rest) \<inter> parallel_edges g v1 v2)"
    by (rule card_mono [OF _ Wsub]) simp
  also have "\<dots> = MaxEdges_inner g v1 (edges g ! e1) (otherVertex (edges g ! e1) v1) rest (Suc 0)"
    using inner_card [OF wf um v1 sub d' c1] o1 by simp
  also have "\<dots> \<le> MaxEdges_outer g v1 (ys @ e1 # rest) 0"
    by (rule outer_ge [OF c1])
  finally show ?thesis by (simp add: MaxEdgesToSingleVertex_def es)
qed

lemma MaxEdges_le_scan:
  "v1 < numVertices g \<Longrightarrow> MaxEdgesToSingleVertex g v1 \<le> M_scan g"
  unfolding M_scan_def by (rule Max_ge) auto

lemma multiplicity_le_scan:
  assumes wf: "wf_graph g" and um: "unmixed g" and ad: "adjacency_distinct g"
    and u: "u < numVertices g" and v: "v < numVertices g"
  shows "multiplicity g u v \<le> M_scan g"
proof (cases "parallel_edges g u v = {}")
  case True
  then show ?thesis by (simp add: multiplicity_def)
next
  case False
  let ?P = "parallel_edges g u v"
  obtain e0 where e0: "e0 \<in> ?P" using False by blast
  have lt: "e < numEdges g" and jn: "joins (edges g ! e) u v" if "e \<in> ?P" for e
    using that by (auto simp: parallel_edges_def joins_def)
  have dir: "directed (edges g ! e) = directed (edges g ! e0)" if "e \<in> ?P" for e
  proof -
    have "joins (edges g ! e) (vertex1 (edges g ! e0)) (vertex2 (edges g ! e0))"
      using jn [OF that] jn [OF e0] by (auto simp: joins_def)
    then show ?thesis using um lt [OF that] lt [OF e0] unfolding unmixed_def by blast
  qed
  show ?thesis
  proof (cases "directed (edges g ! e0) \<or> u \<le> v")
    case True
    have "card ?P \<le> MaxEdgesToSingleVertex g u"
    proof (rule card_le_MaxEdges [OF wf um ad u subset_refl])
      fix e assume e: "e \<in> ?P"
      show "countsFrom (edges g ! e) u \<and> otherVertex (edges g ! e) u = v"
        using e dir [OF e] True
        by (auto simp: parallel_edges_def countsFrom_def otherVertex_def)
    qed
    then show ?thesis using MaxEdges_le_scan [OF u] by (simp add: multiplicity_def)
  next
    case F: False
    have sub: "?P \<subseteq> parallel_edges g v u"
      using dir F by (auto simp: parallel_edges_def)
    have "card ?P \<le> MaxEdgesToSingleVertex g v"
    proof (rule card_le_MaxEdges [OF wf um ad v sub])
      fix e assume e: "e \<in> ?P"
      show "countsFrom (edges g ! e) v \<and> otherVertex (edges g ! e) v = u"
        using e dir [OF e] F
        by (auto simp: parallel_edges_def countsFrom_def otherVertex_def)
    qed
    then show ?thesis using MaxEdges_le_scan [OF v] by (simp add: multiplicity_def)
  qed
qed

lemma M_scan_multiplicity:
  assumes wf: "wf_graph g" and um: "unmixed g" and ad: "adjacency_distinct g"
  shows "M_scan g = max_multiplicity g"
proof (rule antisym)
  show "M_scan g \<le> max_multiplicity g"
    unfolding M_scan_def using MaxEdges_le [OF wf um ad] by (subst Max_le_iff) auto
  show "max_multiplicity g \<le> M_scan g"
    unfolding max_multiplicity_def using multiplicity_le_scan [OF wf um ad]
    by (subst Max_le_iff) auto
qed

text \<open>
  C2 (as amended). On a well-formed graph (counters equal to the array lengths, end
  points in range, each adjacency array listing exactly the incident edges, once each)
  whose vertex marks are clear, in which two edges joining the same two vertices are
  both directed or both undirected, and with a cache of \<open>lg (n!)\<close> that holds correct
  values, \<open>MDL\<close> returns
  \<open>lg V + V\<sqdot>lg L + (V+1)\<sqdot>lg(B+1) + \<Sum> lg C(V, k\<^sub>i) + E\<sqdot>(1 + lg L) + (K+1)\<sqdot>lg M\<close>, where
  \<open>k\<^sub>i\<close> counts the distinct vertices reached from \<open>i\<close> by a directed edge leaving \<open>i\<close> or
  by an undirected edge whose other end has an index at least \<open>i\<close>, \<open>B\<close> is the largest
  and \<open>K\<close> the sum of the \<open>k\<^sub>i\<close>, and \<open>M\<close> is the largest parallel-edge multiplicity
  between two vertices. The vertex term is \<open>lg V + V\<sqdot>lg L\<close>, not \<open>V\<sqdot>(1 + lg L)\<close>.
\<close>

theorem MDL_formula:
  assumes "wf_graph g" and "adjacency_distinct g" and "unmixed g"
    and "vertices_unmarked g" and "cache_ok p"
  shows "fst (MDL g L p) =
     Log2 (numVertices g) + real (numVertices g) * Log2 L
     + real (numVertices g + 1) * Log2 (B_of g + 1)
     + (\<Sum>i<numVertices g. lgchoose (numVertices g) (k_of g i))
     + real (numEdges g) * (1 + Log2 L)
     + real (K_of g + 1) * Log2 (max_multiplicity g)"
  using MDL_ok(1) [OF assms(1) _ assms(5), of L] assms(4)
    M_scan_multiplicity [OF assms(1) assms(3) assms(2)]
  by (simp add: MDL_bits_def vertices_unmarked_def)

lemma wf_graph_double_edges: "wf_graph graph_double_edges"
  by (simp add: wf_graph_def graph_double_edges_def fresh_vertex_def new_edge_def
      numeral_eq_Suc lessThan_Suc)

lemma unmixed_double_edges: "unmixed graph_double_edges"
  by (simp add: unmixed_def graph_double_edges_def new_edge_def joins_def
      numeral_eq_Suc All_less_Suc)

lemma distinct_double_edges: "adjacency_distinct graph_double_edges"
  by (simp add: adjacency_distinct_def graph_double_edges_def fresh_vertex_def
      numeral_eq_Suc All_less_Suc)

lemma neighbours_double_edges:
  "neighbours graph_double_edges 0 = {1}" "neighbours graph_double_edges (Suc 0) = {}"
  "neighbours graph_double_edges (Suc (Suc 0)) = {3}"
  "neighbours graph_double_edges (Suc (Suc (Suc 0))) = {}"
  by (auto simp: neighbours_def graph_double_edges_def new_edge_def numeral_eq_Suc
      Ex_less_Suc)

lemma MaxEdges_double_edges:
  "MaxEdgesToSingleVertex graph_double_edges 0 = 2"
  "MaxEdgesToSingleVertex graph_double_edges (Suc 0) = 0"
  "MaxEdgesToSingleVertex graph_double_edges (Suc (Suc 0)) = 2"
  "MaxEdgesToSingleVertex graph_double_edges (Suc (Suc (Suc 0))) = 0"
  by (simp_all add: MaxEdgesToSingleVertex_def graph_double_edges_def fresh_vertex_def
      new_edge_def countsFrom_def otherVertex_def)

lemma Log2_values: "Log2 (Suc 0) = 0" "Log2 2 = 1" "Log2 4 = 2"
proof -
  show "Log2 (Suc 0) = 0" "Log2 2 = 1" by (simp_all add: Log2_def)
  have "log 2 (2 * 2) = log 2 2 + log 2 (2::real)" by (rule log_mult_pos) simp_all
  then have "log 2 (4::real) = 2" by simp
  then show "Log2 4 = 2" using Log2_log [of 4] by simp
qed

theorem MDL_formula_witness:
  "wf_graph graph_double_edges \<and> adjacency_distinct graph_double_edges \<and>
   unmixed graph_double_edges \<and> vertices_unmarked graph_double_edges \<and>
   cache_ok example_parameters \<and> max_multiplicity graph_double_edges = 2 \<and>
   fst (MDL graph_double_edges 2 example_parameters) = 26"
proof -
  note wf = wf_graph_double_edges and ad = distinct_double_edges and um = unmixed_double_edges
  have un: "vertices_unmarked graph_double_edges"
    by (simp add: vertices_unmarked_def graph_double_edges_def fresh_vertex_def)
  have four: "{..<4::nat} = {0, Suc 0, Suc (Suc 0), Suc (Suc (Suc 0))}" by auto
  have k: "k_of graph_double_edges 0 = 1" "k_of graph_double_edges (Suc 0) = 0"
    "k_of graph_double_edges (Suc (Suc 0)) = 1"
    "k_of graph_double_edges (Suc (Suc (Suc 0))) = 0"
    by (simp_all add: k_of_def neighbours_double_edges)
  have nv: "numVertices graph_double_edges = 4" "numEdges graph_double_edges = 4"
    by (simp_all add: graph_double_edges_def)
  have B: "B_of graph_double_edges = 1" by (simp add: B_of_def nv four k)
  have K: "K_of graph_double_edges = 2" by (simp add: K_of_def nv four k)
  have "M_scan graph_double_edges = 2"
    by (simp add: M_scan_def nv four MaxEdges_double_edges)
  then have M: "max_multiplicity graph_double_edges = 2"
    using M_scan_multiplicity [OF wf um ad] by simp
  have l4: "log 2 (4::real) = 2" using Log2_values(3) Log2_log [of 4] by simp
  have ch: "(\<Sum>i<4. lgchoose 4 (k_of graph_double_edges i)) = 4"
    by (simp add: four k lgchoose_def l4)
  have l3: "Log2 (Suc (Suc 0)) = 1" using Log2_values(2) by (simp add: numeral_2_eq_2)
  have "fst (MDL graph_double_edges 2 example_parameters) = 26"
    using MDL_formula [OF wf ad um un cache_ok_example, of 2]
    by (simp add: nv B K M Log2_values l3 ch)
  then show ?thesis using wf ad um un cache_ok_example M by simp
qed

theorem MDL_vertex_bits_counterexample:
  "fst (MDL graph_one_vertex 1 example_parameters) \<noteq> MDL_claimed graph_one_vertex 1"
proof -
  have run: "fst (MDL graph_one_vertex 1 example_parameters) = 0"
    by (simp add: MDL_def Let_def split_beta graph_one_vertex_def fresh_vertex_def
        example_parameters_def Log2Factorial_def NumUniqueEdges_def
        MaxEdgesToSingleVertex_def usub_def Log2_def)
  have k: "k_of graph_one_vertex 0 = 0"
    by (simp add: k_of_def neighbours_def graph_one_vertex_def)
  have one: "{..<Suc 0} = {0}" by auto
  have nv: "numVertices graph_one_vertex = 1" "numEdges graph_one_vertex = 0"
    by (simp_all add: graph_one_vertex_def)
  have B: "B_of graph_one_vertex = 0" by (simp add: B_of_def nv one k)
  have K: "K_of graph_one_vertex = 0" by (simp add: K_of_def nv one k)
  have M: "max_multiplicity graph_one_vertex = 0"
    by (simp add: max_multiplicity_def multiplicity_def parallel_edges_def nv one)
  have "MDL_claimed graph_one_vertex 1 = 1"
    by (simp add: MDL_claimed_def nv B K M k lgchoose_def Log2_def)
  then show ?thesis using run by simp
qed

lemma compressed_size_cong:
  "numVertices d' = numVertices d \<Longrightarrow>
   compressed_size g il n d' L p = compressed_size g il n d L p"
  by (simp add: compressed_size_def ExternalEdgeBits_def)

lemma compressed_DL_ok:
  assumes "cache_ok p" "cache_ok p1" "same_but_cache p p1"
    and "objs st gr = Some g" "objs st defr = Some d" "defr \<noteq> gr" "store_ok st"
  shows "\<exists>st' p'. compressed_DL st gr (Some il) n defr L p1 =
            Some (compressed_size g il n d L p, st', p') \<and>
          cache_ok p' \<and> same_but_cache p p' \<and> store_ok st' \<and>
          next_ref st' = next_ref st + 1 \<and>
          (\<forall>a. a \<noteq> gr \<longrightarrow> objs st' a = objs st a) \<and> objs st' gr \<noteq> None"
proof -
  obtain cg g1 where c: "CompressGraph g il p1 = (cg, g1)"
    by (cases "CompressGraph g il p1") blast
  obtain bits cg1 p2 where m: "MDL cg L p1 = (bits, cg1, p2)"
    by (cases "MDL cg L p1") blast
  have c': "CompressGraph g il p = (cg, g1)"
    using CompressGraph_cache [OF assms(3), of g il] c by simp
  have sym: "same_but_cache p1 p" using assms(3) by (simp add: same_but_cache_def)
  note i = MDL_indep [OF assms(1) assms(2) assms(3), of cg L]
  note j = MDL_indep [OF assms(2) assms(1) sym, of cg L]
  have b: "fst (MDL cg L p) = bits" and g: "fst (snd (MDL cg L p)) = cg1"
    using i(1) i(2) m by simp_all
  have p2: "cache_ok p2" "same_but_cache p1 p2" using j(4) j(5) m by simp_all
  have pp2: "same_but_cache p p2"
    using assms(3) p2(2) by (simp add: same_but_cache_def)
  have lt: "defr < next_ref st" "gr < next_ref st"
    using assms(4,5,7) by (simp_all add: store_ok_def)
  let ?st' = "FreeGraph (next_ref st) (put (next_ref st) cg1
                 (snd (alloc cg (put gr g1 st))))"
  have run: "compressed_DL st gr (Some il) n defr L p1 =
               Some (bits + ExternalEdgeBits cg1 d n, ?st', p2)"
    using assms(4,5,6) lt c m
    by (simp add: compressed_DL_def alloc_def put_def FreeGraph_def)
  have v: "compressed_size g il n d L p = bits + ExternalEdgeBits cg1 d n"
    using c' b g by (simp add: compressed_size_def)
  have ok: "store_ok ?st'"
    using assms(7) lt by (auto simp: store_ok_def alloc_def put_def FreeGraph_def)
  have nn: "objs st (next_ref st) = None"
    using assms(7) unfolding store_ok_def by (cases "objs st (next_ref st)") auto
  have fr: "\<forall>a. a \<noteq> gr \<longrightarrow> objs ?st' a = objs st a"
    using nn by (simp add: alloc_def put_def FreeGraph_def)
  have live: "objs ?st' gr \<noteq> None"
    using lt by (simp add: alloc_def put_def FreeGraph_def)
  have nx: "next_ref ?st' = next_ref st + 1"
    by (simp add: alloc_def put_def FreeGraph_def)
  show ?thesis using run v p2(1) pp2 ok nx fr live by (intro exI conjI) simp_all
qed

lemma compressed_labels_eq:
  "compressed_labels sub p =
     (if allowInstanceOverlap p \<and>
         (InstancesOverlap (instances sub) \<or> InstancesOverlap (negInstances sub))
      then length (labelList p) + 1 + 1 else length (labelList p) + 1)"
  by (simp add: compressed_labels_def)

lemma EvaluateSub_MDL_neg:
  assumes c: "cache_ok p" and sok: "store_ok st" and ng: "negGraph p = Some nref"
    and d: "objs st (definition_ref sub) = Some d"
    and gp: "objs st (posGraph p) = Some gp" and gn: "objs st nref = Some gn"
    and ip: "instances sub = Some ilp" and ineg: "negInstances sub = Some iln"
    and dist: "definition_ref sub \<noteq> posGraph p" "definition_ref sub \<noteq> nref"
      "posGraph p \<noteq> nref"
  shows "\<exists>st' p'.
     EvaluateSub_MDL st sub p =
       fdiv (posGraphDL p + negGraphDL p)
         (fst (MDL d (length (labelList p)) p)
          + compressed_size gp ilp (numInstances sub) d (compressed_labels sub p) p
          + negGraphDL p
          - compressed_size gn iln (numNegInstances sub) d (compressed_labels sub p) p)
       \<bind> (\<lambda>v. Some (v, st', p')) \<and>
     cache_ok p' \<and> same_but_cache p p' \<and> store_ok st' \<and> next_ref st' = next_ref st + 2 \<and>
     (\<forall>a. a \<noteq> definition_ref sub \<and> a \<noteq> posGraph p \<and> a \<noteq> nref \<longrightarrow>
          objs st' a = objs st a) \<and>
     objs st' (definition_ref sub) \<noteq> None \<and> objs st' (posGraph p) \<noteq> None \<and>
     objs st' nref \<noteq> None"
proof -
  let ?L = "length (labelList p)"
  let ?L2 = "compressed_labels sub p"
  let ?r = "definition_ref sub"
  obtain sizeOfSub d1 p1 where m: "MDL d ?L p = (sizeOfSub, d1, p1)"
    by (cases "MDL d ?L p") blast
  note i = MDL_indep [OF c c same_but_cache_refl, of d ?L]
  have d1: "numVertices d1 = numVertices d" using i(3) m by (simp add: same_but_vused_def)
  have c1: "cache_ok p1" and s1: "same_but_cache p p1" using i(4) i(5) m by simp_all
  let ?st1 = "put ?r d1 st"
  have lt: "?r < next_ref st" using sok d by (simp add: store_ok_def)
  have ok1: "store_ok ?st1" using sok lt by (auto simp: store_ok_def put_def)
  have gp1: "objs ?st1 (posGraph p) = Some gp" using gp dist(1) by (simp add: put_def)
  have r1: "objs ?st1 ?r = Some d1" by (simp add: put_def)
  obtain st2 p2 where
    run2: "compressed_DL ?st1 (posGraph p) (Some ilp) (numInstances sub) ?r ?L2 p1 =
             Some (compressed_size gp ilp (numInstances sub) d1 ?L2 p, st2, p2)"
    and c2: "cache_ok p2" and s2: "same_but_cache p p2" and ok2: "store_ok st2"
    and n2: "next_ref st2 = next_ref ?st1 + 1"
    and fr2: "\<forall>a. a \<noteq> posGraph p \<longrightarrow> objs st2 a = objs ?st1 a"
    and l2: "objs st2 (posGraph p) \<noteq> None"
    using compressed_DL_ok [OF c c1 s1 gp1 r1 dist(1) ok1] by blast
  have gn2: "objs st2 nref = Some gn" using fr2 gn dist(2,3) by (simp add: put_def)
  have r2: "objs st2 ?r = Some d1" using fr2 dist(1) by (simp add: put_def)
  obtain st3 p3 where
    run3: "compressed_DL st2 nref (Some iln) (numNegInstances sub) ?r ?L2 p2 =
             Some (compressed_size gn iln (numNegInstances sub) d1 ?L2 p, st3, p3)"
    and c3: "cache_ok p3" and s3: "same_but_cache p p3" and ok3: "store_ok st3"
    and n3: "next_ref st3 = next_ref st2 + 1"
    and fr3: "\<forall>a. a \<noteq> nref \<longrightarrow> objs st3 a = objs st2 a"
    and l3: "objs st3 nref \<noteq> None"
    using compressed_DL_ok [OF c c2 s2 gn2 r2 dist(2) ok2] by blast
  note cg = compressed_size_cong [OF d1]
  have sz: "fst (MDL d ?L p) = sizeOfSub" using m by simp
  have run: "EvaluateSub_MDL st sub p =
       fdiv (posGraphDL p + negGraphDL p)
         (sizeOfSub + compressed_size gp ilp (numInstances sub) d1 ?L2 p + negGraphDL p
          - compressed_size gn iln (numNegInstances sub) d1 ?L2 p)
       \<bind> (\<lambda>v. Some (v, st3, p3))"
  proof -
    have L2: "(if allowInstanceOverlap p \<and>
                  (InstancesOverlap (Some ilp) \<or> InstancesOverlap (Some iln))
               then Suc ?L + 1 else Suc ?L) = ?L2"
      using ip ineg by (simp add: compressed_labels_def)
    show ?thesis
      unfolding EvaluateSub_MDL_def
      using d m ip ineg ng run2 run3 by (simp add: Let_def L2 split del: if_split)
  qed
  have fr: "\<forall>a. a \<noteq> ?r \<and> a \<noteq> posGraph p \<and> a \<noteq> nref \<longrightarrow> objs st3 a = objs st a"
    using fr2 fr3 by (simp add: put_def)
  have lr: "objs st3 ?r \<noteq> None" using fr3 r2 dist(2) by simp
  have lp: "objs st3 (posGraph p) \<noteq> None" using fr3 l2 dist(3) by simp
  have n: "next_ref st3 = next_ref st + 2" using n2 n3 by (simp add: put_def)
  show ?thesis
    unfolding sz using run c3 s3 ok3 n fr lr lp l3 unfolding cg
    by (intro exI conjI) simp_all
qed

lemma NegExamplesCovered_cong:
  "negInstances s' = negInstances s \<Longrightarrow> NegExamplesCovered g s' p = NegExamplesCovered g s p"
  by (simp add: NegExamplesCovered_def)

lemma EvaluateSub_plain:
  assumes gp: "objs st (posGraph p) = Some gp"
    and gn: "\<And>nref. negGraph p = Some nref \<Longrightarrow> objs st nref \<noteq> None"
    and nr: "\<not> recursive sub"
  shows "EvaluateSub st sub p =
     EvaluateSub_switch st (examples_counted gp (negGraph p \<bind> objs st) sub p) p
       \<bind> (\<lambda>(v, st2, p2).
             Some (st2, (examples_counted gp (negGraph p \<bind> objs st) sub p)\<lparr>svalue := v\<rparr>, p2))"
proof (cases "negGraph p")
  case None
  then show ?thesis using gp nr
    by (simp add: EvaluateSub_def examples_counted_def Let_def)
next
  case (Some nref)
  then obtain g where g: "objs st nref = Some g" using gn [of nref] by auto
  have n: "\<And>a. NegExamplesCovered g (sub\<lparr>numExamples := a, numNegExamples := 0\<rparr>) p =
                NegExamplesCovered g sub p"
    by (rule NegExamplesCovered_cong) simp
  show ?thesis using gp nr Some g
    by (simp add: EvaluateSub_def examples_counted_def Let_def n)
qed

lemma EvaluateSub_recursive:
  assumes gp: "objs st (posGraph p) = Some gp"
    and gn: "\<And>nref. negGraph p = Some nref \<Longrightarrow> objs st nref \<noteq> None"
    and r: "recursive sub" and old: "objs st (definition_ref sub) = Some d"
  shows "EvaluateSub st sub p =
     EvaluateSub_switch (snd (alloc (recursive_definition d (recursiveEdgeLabel sub)) st))
       ((examples_counted gp (negGraph p \<bind> objs st) sub p)\<lparr>definition_ref := next_ref st\<rparr>) p
       \<bind> (\<lambda>(v, st2, p2).
             Some (FreeGraph (next_ref st) st2,
                   (examples_counted gp (negGraph p \<bind> objs st) sub p)\<lparr>svalue := v\<rparr>, p2))"
proof -
  have upd: "\<And>(s :: Substructure) a v.
      s\<lparr>definition_ref := a, svalue := v, definition_ref := definition_ref s\<rparr> = s\<lparr>svalue := v\<rparr>"
    by simp
  show ?thesis
  proof (cases "negGraph p")
    case None
    then show ?thesis using gp r old
      by (simp add: EvaluateSub_def examples_counted_def Let_def alloc_def split_beta
          cong: option.case_cong)
  next
    case (Some nref)
    then obtain g where g: "objs st nref = Some g" using gn [of nref] by auto
    have n: "\<And>a. NegExamplesCovered g (sub\<lparr>numExamples := a, numNegExamples := 0\<rparr>) p =
                  NegExamplesCovered g sub p"
      by (rule NegExamplesCovered_cong) simp
    show ?thesis using gp r old Some g
      by (simp add: EvaluateSub_def examples_counted_def Let_def n alloc_def split_beta)
  qed
qed

lemma examples_counted_fields [simp]:
  "definition_ref (examples_counted gp g sub p) = definition_ref sub"
  "instances (examples_counted gp g sub p) = instances sub"
  "negInstances (examples_counted gp g sub p) = negInstances sub"
  "numInstances (examples_counted gp g sub p) = numInstances sub"
  "numNegInstances (examples_counted gp g sub p) = numNegInstances sub"
  "recursive (examples_counted gp g sub p) = recursive sub"
  "recursiveEdgeLabel (examples_counted gp g sub p) = recursiveEdgeLabel sub"
  by (simp_all add: examples_counted_def)

lemma compressed_labels_cong:
  "instances s' = instances s \<Longrightarrow> negInstances s' = negInstances s \<Longrightarrow>
   compressed_labels s' p = compressed_labels s p"
  by (simp add: compressed_labels_def)

lemma switch_MDL:
  "evalMethod p = EVAL_MDL \<Longrightarrow> EvaluateSub_switch st s p = EvaluateSub_MDL st s p"
  by (simp add: EvaluateSub_switch_def)

lemma EvaluateSub_MDL_run:
  assumes m: "evalMethod p = EVAL_MDL" and ng: "negGraph p = Some nref"
    and c: "cache_ok p" and sok: "store_ok st"
    and d: "objs st (definition_ref sub) = Some d"
    and gp: "objs st (posGraph p) = Some gp" and gn: "objs st nref = Some gn"
    and ip: "instances sub = Some ilp" and ineg: "negInstances sub = Some iln"
    and dist: "distinct [definition_ref sub, posGraph p, nref]"
    and den: "mdl_denominator (scored_definition d sub) gp gn ilp iln sub p \<noteq> 0"
  shows "\<exists>st' p'. EvaluateSub st sub p =
           Some (st',
                 (examples_counted gp (Some gn) sub p)\<lparr>svalue :=
                    (posGraphDL p + negGraphDL p) /
                    mdl_denominator (scored_definition d sub) gp gn ilp iln sub p\<rparr>, p') \<and>
           objs st' (definition_ref sub) \<noteq> None \<and>
           (recursive sub \<longrightarrow> objs st' (definition_ref sub) = Some d \<and>
                                objs st' (next_ref st) = None)"
proof -
  let ?s3 = "examples_counted gp (Some gn) sub p"
  have gn': "\<And>r. negGraph p = Some r \<Longrightarrow> objs st r \<noteq> None" using ng gn by simp
  have b: "negGraph p \<bind> objs st = Some gn" using ng gn by simp
  have di: "definition_ref sub \<noteq> posGraph p" "definition_ref sub \<noteq> nref" "posGraph p \<noteq> nref"
    using dist by simp_all
  show ?thesis
  proof (cases "recursive sub")
    case False
    have sd: "scored_definition d sub = d" using False by (simp add: scored_definition_def)
    obtain st' p' where
      run: "EvaluateSub_MDL st ?s3 p =
         fdiv (posGraphDL p + negGraphDL p)
           (fst (MDL d (length (labelList p)) p)
            + compressed_size gp ilp (numInstances ?s3) d (compressed_labels ?s3 p) p
            + negGraphDL p
            - compressed_size gn iln (numNegInstances ?s3) d (compressed_labels ?s3 p) p)
         \<bind> (\<lambda>v. Some (v, st', p'))"
      and live: "objs st' (definition_ref ?s3) \<noteq> None"
      using EvaluateSub_MDL_neg [OF c sok ng, of ?s3 d gp gn ilp iln] d gp gn ip ineg di
      by auto
    have cl: "compressed_labels ?s3 p = compressed_labels sub p"
      by (rule compressed_labels_cong) simp_all
    have run': "EvaluateSub_MDL st ?s3 p =
         Some ((posGraphDL p + negGraphDL p) / mdl_denominator d gp gn ilp iln sub p, st', p')"
      using run den unfolding cl sd by (simp add: mdl_denominator_def fdiv_def)
    have "EvaluateSub st sub p =
            Some (st', ?s3\<lparr>svalue := (posGraphDL p + negGraphDL p) /
                                      mdl_denominator d gp gn ilp iln sub p\<rparr>, p')"
      by (simp add: EvaluateSub_plain [OF gp gn' False] b switch_MDL [OF m] run')
    then show ?thesis using live False unfolding sd by auto
  next
    case True
    let ?d' = "recursive_definition d (recursiveEdgeLabel sub)"
    let ?st1 = "snd (alloc ?d' st)"
    let ?s4 = "?s3\<lparr>definition_ref := next_ref st\<rparr>"
    have sd: "scored_definition d sub = ?d'" using True by (simp add: scored_definition_def)
    have lt: "definition_ref sub < next_ref st" "posGraph p < next_ref st" "nref < next_ref st"
      using sok d gp gn by (simp_all add: store_ok_def)
    have ok1: "store_ok ?st1" using sok by (auto simp: store_ok_def alloc_def)
    have d1: "objs ?st1 (definition_ref ?s4) = Some ?d'" by (simp add: alloc_def)
    have gp1: "objs ?st1 (posGraph p) = Some gp" using gp lt by (simp add: alloc_def)
    have gn1: "objs ?st1 nref = Some gn" using gn lt by (simp add: alloc_def)
    have old1: "objs ?st1 (definition_ref sub) = Some d" using d lt by (simp add: alloc_def)
    have di4: "definition_ref ?s4 \<noteq> posGraph p" "definition_ref ?s4 \<noteq> nref"
      using lt by simp_all
    have ip4: "instances ?s4 = Some ilp" and in4: "negInstances ?s4 = Some iln"
      using ip ineg by simp_all
    obtain st' p' where
      run: "EvaluateSub_MDL ?st1 ?s4 p =
         fdiv (posGraphDL p + negGraphDL p)
           (fst (MDL ?d' (length (labelList p)) p)
            + compressed_size gp ilp (numInstances ?s4) ?d' (compressed_labels ?s4 p) p
            + negGraphDL p
            - compressed_size gn iln (numNegInstances ?s4) ?d' (compressed_labels ?s4 p) p)
         \<bind> (\<lambda>v. Some (v, st', p'))"
      and fr: "\<forall>a. a \<noteq> definition_ref ?s4 \<and> a \<noteq> posGraph p \<and> a \<noteq> nref \<longrightarrow>
                   objs st' a = objs ?st1 a"
      using EvaluateSub_MDL_neg [OF c ok1 ng d1 gp1 gn1 ip4 in4 di4 di(3)] by blast
    have cl: "compressed_labels ?s4 p = compressed_labels sub p"
      by (rule compressed_labels_cong) simp_all
    have ni: "numInstances ?s4 = numInstances sub" "numNegInstances ?s4 = numNegInstances sub"
      by simp_all
    have run': "EvaluateSub_MDL ?st1 ?s4 p =
         Some ((posGraphDL p + negGraphDL p) / mdl_denominator ?d' gp gn ilp iln sub p, st', p')"
      using run den unfolding cl sd ni by (simp add: mdl_denominator_def fdiv_def)
    have res: "EvaluateSub st sub p =
            Some (FreeGraph (next_ref st) st',
                  ?s3\<lparr>svalue := (posGraphDL p + negGraphDL p) /
                                      mdl_denominator ?d' gp gn ilp iln sub p\<rparr>, p')"
      by (simp add: EvaluateSub_recursive [OF gp gn' True d] b switch_MDL [OF m] run')
    have keep: "objs st' (definition_ref sub) = Some d"
      using fr old1 lt di by simp
    have "objs (FreeGraph (next_ref st) st') (definition_ref sub) = Some d"
      using keep lt by (simp add: FreeGraph_def)
    moreover have "objs (FreeGraph (next_ref st) st') (next_ref st) = None"
      by (simp add: FreeGraph_def)
    ultimately show ?thesis using res unfolding sd by auto
  qed
qed

lemma MDL_edgeless:
  assumes wf: "wf_graph g" and un: "vertices_unmarked g" and c: "cache_ok p"
    and ne: "numEdges g = 0"
  shows "fst (MDL g L p) = Log2 (numVertices g) + real (numVertices g) * Log2 L"
    and "fst (snd (MDL g L p)) = g"
proof -
  have un': "\<forall>v \<in> set (vertices g). \<not> vused v" using un by (simp add: vertices_unmarked_def)
  have k: "k_of g = (\<lambda>i. 0)" by (rule ext) (simp add: k_of_def neighbours_def ne)
  have adj: "vedges (vertices g ! v) = []" if "v < numVertices g" for v
  proof (cases "vedges (vertices g ! v)")
    case Nil
    then show ?thesis .
  next
    case (Cons e es)
    then have "e \<in> set (vedges (vertices g ! v))" by simp
    then have "e < length (edges g)"
      using wf_graph_adj [OF wf, of v e] that wf_graph_numV [OF wf] by simp
    then show ?thesis using ne wf_graph_numE [OF wf] by simp
  qed
  have m: "MaxEdgesToSingleVertex g ` {..<numVertices g} = (\<lambda>i. 0) ` {..<numVertices g}"
    by (rule image_cong) (simp_all add: MaxEdgesToSingleVertex_def adj)
  have B: "B_of g = 0" by (simp add: B_of_def k image_constant_conv)
  have K: "K_of g = 0" by (simp add: K_of_def k)
  have M: "M_scan g = 0" unfolding M_scan_def m by (simp add: image_constant_conv)
  show "fst (MDL g L p) = Log2 (numVertices g) + real (numVertices g) * Log2 L"
    using MDL_ok(1) [OF wf un' c, of L]
    by (simp add: MDL_bits_def B K M k ne lgchoose_def Log2_def)
  show "fst (snd (MDL g L p)) = g" by (rule MDL_ok(2) [OF wf un' c])
qed

lemma cache_ok_mdl: "cache_ok mdl_parameters"
  by (simp add: cache_ok_def mdl_parameters_def lgfact_def less_Suc_eq numeral_2_eq_2)

lemma compress_two_vertices:
  "fst (CompressGraph graph_two_vertices vertex_instances mdl_parameters) =
     \<lparr>numVertices = 2, numEdges = 0, vertices = [fresh_vertex 1 [], fresh_vertex 1 []],
      edges = []\<rparr>"
  by (simp add: eval_graph_ops graph_two_vertices_def vertex_instances_def mdl_parameters_def
      split del: if_split)

lemma compressed_size_two_vertices:
  "compressed_size graph_two_vertices vertex_instances 2 graph_one_vertex 2 mdl_parameters = 3"
proof -
  let ?cg = "\<lparr>numVertices = 2, numEdges = 0,
              vertices = [fresh_vertex 1 [], fresh_vertex 1 []], edges = []\<rparr>"
  have wf: "wf_graph ?cg"
    by (simp add: wf_graph_def fresh_vertex_def numeral_eq_Suc lessThan_Suc)
  have un: "vertices_unmarked ?cg" by (simp add: vertices_unmarked_def fresh_vertex_def)
  note e = MDL_edgeless [OF wf un cache_ok_mdl, of 2]
  have l2: "Log2 2 = 1" by (simp add: Log2_def)
  have bits: "fst (MDL ?cg 2 mdl_parameters) = 3" using e(1) by (simp add: l2)
  have same: "fst (snd (MDL ?cg 2 mdl_parameters)) = ?cg" using e(2) by simp
  have ext: "ExternalEdgeBits ?cg graph_one_vertex 2 = 0"
    by (simp add: ExternalEdgeBits_def fresh_vertex_def upt_conv_Cons)
  show ?thesis
    unfolding compressed_size_def compress_two_vertices same bits ext by simp
qed

lemma mdl_denominator_example:
  "mdl_denominator graph_one_vertex graph_two_vertices graph_two_vertices
     vertex_instances vertex_instances mdl_substructure mdl_parameters = 1"
proof -
  have wf: "wf_graph graph_one_vertex"
    by (simp add: wf_graph_def graph_one_vertex_def fresh_vertex_def)
  have un: "vertices_unmarked graph_one_vertex"
    by (simp add: vertices_unmarked_def graph_one_vertex_def fresh_vertex_def)
  have "fst (MDL graph_one_vertex 1 mdl_parameters) = 0"
    using MDL_edgeless(1) [OF wf un cache_ok_mdl, of 1]
    by (simp add: graph_one_vertex_def Log2_def)
  moreover have "length (labelList mdl_parameters) = 1" by (simp add: mdl_parameters_def)
  moreover have "compressed_labels mdl_substructure mdl_parameters = 2"
    by (simp add: compressed_labels_def mdl_parameters_def)
  moreover have "numInstances mdl_substructure = 2" "numNegInstances mdl_substructure = 2"
    by (simp_all add: mdl_substructure_def)
  moreover have "negGraphDL mdl_parameters = 1" by (simp add: mdl_parameters_def)
  ultimately show ?thesis
    by (simp add: mdl_denominator_def compressed_size_two_vertices)
qed

text \<open>
  C1 (as amended). Under \<open>EVAL_MDL\<close> with a negative graph, on a store where the
  definition, the positive and the negative graph are three different live objects, with
  both instance lists present, a correct cache of \<open>lg (n!)\<close> and a denominator that is
  not zero, \<open>EvaluateSub\<close> returns and sets the value to
  \<open>(DL(G\<^sub>p) + DL(G\<^sub>n)) / (DL(S) + DL(G\<^sub>p|S) + DL(G\<^sub>n) - DL(G\<^sub>n|S))\<close>: the description length
  of the negative graph is added above the line too. \<open>DL(G|S)\<close> is the description
  length of the compressed graph plus the bits of \<open>ExternalEdgeBits\<close>, and \<open>S\<close> is the
  definition (with the recursive edge, for a recursive substructure).
\<close>

theorem EvaluateSub_MDL_value:
  assumes "evalMethod p = EVAL_MDL" and "negGraph p = Some nref"
    and "cache_ok p" and "store_ok st"
    and "objs st (definition_ref sub) = Some d"
    and "objs st (posGraph p) = Some gp" and "objs st nref = Some gn"
    and "instances sub = Some ilp" and "negInstances sub = Some iln"
    and "distinct [definition_ref sub, posGraph p, nref]"
    and "mdl_denominator (scored_definition d sub) gp gn ilp iln sub p \<noteq> 0"
  shows "\<exists>st' sub' p'. EvaluateSub st sub p = Some (st', sub', p') \<and>
           svalue sub' =
             (posGraphDL p + negGraphDL p) /
             mdl_denominator (scored_definition d sub) gp gn ilp iln sub p"
proof -
  obtain st' p' where "EvaluateSub st sub p =
           Some (st',
                 (examples_counted gp (Some gn) sub p)\<lparr>svalue :=
                    (posGraphDL p + negGraphDL p) /
                    mdl_denominator (scored_definition d sub) gp gn ilp iln sub p\<rparr>, p')"
    using EvaluateSub_MDL_run [OF assms] by blast
  then show ?thesis by simp
qed

theorem EvaluateSub_MDL_value_witness:
  "evalMethod mdl_parameters = EVAL_MDL \<and> negGraph mdl_parameters = Some 1 \<and>
   cache_ok mdl_parameters \<and> store_ok mdl_store \<and>
   objs mdl_store (definition_ref mdl_substructure) = Some graph_one_vertex \<and>
   objs mdl_store (posGraph mdl_parameters) = Some graph_two_vertices \<and>
   objs mdl_store 1 = Some graph_two_vertices \<and>
   instances mdl_substructure = Some vertex_instances \<and>
   negInstances mdl_substructure = Some vertex_instances \<and>
   distinct [definition_ref mdl_substructure, posGraph mdl_parameters, 1] \<and>
   mdl_denominator (scored_definition graph_one_vertex mdl_substructure) graph_two_vertices
     graph_two_vertices vertex_instances vertex_instances mdl_substructure mdl_parameters = 1 \<and>
   posGraphDL mdl_parameters = 1 \<and> negGraphDL mdl_parameters = 1 \<and>
   (\<exists>st' sub' p'. EvaluateSub mdl_store mdl_substructure mdl_parameters = Some (st', sub', p') \<and>
      svalue sub' = 2)"
proof -
  have h: "evalMethod mdl_parameters = EVAL_MDL" "negGraph mdl_parameters = Some 1"
    "store_ok mdl_store"
    "objs mdl_store (definition_ref mdl_substructure) = Some graph_one_vertex"
    "objs mdl_store (posGraph mdl_parameters) = Some graph_two_vertices"
    "objs mdl_store 1 = Some graph_two_vertices"
    "instances mdl_substructure = Some vertex_instances"
    "negInstances mdl_substructure = Some vertex_instances"
    "distinct [definition_ref mdl_substructure, posGraph mdl_parameters, 1]"
    by (simp_all add: mdl_parameters_def mdl_store_def mdl_substructure_def store_ok_def)
  have sd: "scored_definition graph_one_vertex mdl_substructure = graph_one_vertex"
    by (simp add: scored_definition_def mdl_substructure_def)
  have den: "mdl_denominator (scored_definition graph_one_vertex mdl_substructure)
     graph_two_vertices graph_two_vertices vertex_instances vertex_instances
     mdl_substructure mdl_parameters = 1"
    unfolding sd by (rule mdl_denominator_example)
  have dl: "posGraphDL mdl_parameters = 1" "negGraphDL mdl_parameters = 1"
    by (simp_all add: mdl_parameters_def)
  have "\<exists>st' sub' p'. EvaluateSub mdl_store mdl_substructure mdl_parameters = Some (st', sub', p') \<and>
      svalue sub' = 2"
    using EvaluateSub_MDL_value [OF h(1) h(2) cache_ok_mdl h(3) h(4) h(5) h(6) h(7) h(8) h(9)]
    unfolding den dl by simp
  then show ?thesis using h cache_ok_mdl den dl by simp
qed

theorem EvaluateSub_MDL_numerator_counterexample:
  "EvaluateSub mdl_store mdl_substructure mdl_parameters \<noteq> None \<and>
   svalue (fst (snd (the (EvaluateSub mdl_store mdl_substructure mdl_parameters)))) \<noteq>
     mdl_value_claimed graph_one_vertex graph_two_vertices graph_two_vertices
       vertex_instances vertex_instances mdl_substructure mdl_parameters"
proof -
  have h: "evalMethod mdl_parameters = EVAL_MDL" "negGraph mdl_parameters = Some 1"
    "store_ok mdl_store"
    "objs mdl_store (definition_ref mdl_substructure) = Some graph_one_vertex"
    "objs mdl_store (posGraph mdl_parameters) = Some graph_two_vertices"
    "objs mdl_store 1 = Some graph_two_vertices"
    "instances mdl_substructure = Some vertex_instances"
    "negInstances mdl_substructure = Some vertex_instances"
    "distinct [definition_ref mdl_substructure, posGraph mdl_parameters, 1]"
    by (simp_all add: mdl_parameters_def mdl_store_def mdl_substructure_def store_ok_def)
  have sd: "scored_definition graph_one_vertex mdl_substructure = graph_one_vertex"
    by (simp add: scored_definition_def mdl_substructure_def)
  have den: "mdl_denominator (scored_definition graph_one_vertex mdl_substructure)
     graph_two_vertices graph_two_vertices vertex_instances vertex_instances
     mdl_substructure mdl_parameters = 1"
    unfolding sd by (rule mdl_denominator_example)
  have dl: "posGraphDL mdl_parameters = 1" "negGraphDL mdl_parameters = 1"
    by (simp_all add: mdl_parameters_def)
  obtain st' p' where run: "EvaluateSub mdl_store mdl_substructure mdl_parameters =
      Some (st', (examples_counted graph_two_vertices (Some graph_two_vertices)
                    mdl_substructure mdl_parameters)\<lparr>svalue := 2\<rparr>, p')"
    using EvaluateSub_MDL_run [OF h(1) h(2) cache_ok_mdl h(3) h(4) h(5) h(6) h(7) h(8) h(9)]
    unfolding den dl by auto
  have cl: "mdl_value_claimed graph_one_vertex graph_two_vertices graph_two_vertices
       vertex_instances vertex_instances mdl_substructure mdl_parameters = 1"
    by (simp add: mdl_value_claimed_def mdl_denominator_example dl)
  show ?thesis unfolding run cl by simp
qed

end
